theory Spec2Isabelle
  imports Complex_Main
begin

section \<open>Backtracking matcher for the regular expressions of the sources\<close>

text \<open>
  The Python parser uses \<^verbatim>\<open>re.search(r'({.*})', text, re.DOTALL)\<close> and the JavaScript
  list parser uses \<^verbatim>\<open>/^(\d+\.\s*)(.+)$/\<close> and \<^verbatim>\<open>/^\*\*([^:]+):\*\*\s*(.+)$/\<close>.
  All three are sequences of character classes, each taken once, or under \<^verbatim>\<open>*\<close> or
  \<^verbatim>\<open>+\<close>. Both engines match by backtracking: a quantified class first takes the
  longest run it can and gives characters back one at a time while the rest of the
  pattern fails. The matcher returns the text taken by each class, in order, so that a
  capture group is the concatenation of the pieces of the classes inside it.
\<close>

datatype quant = One | Star | Plus

type_synonym 'c item = "('c \<Rightarrow> bool) \<times> quant"

fun lo :: "quant \<Rightarrow> nat" where
  "lo One = 1"
| "lo Star = 0"
| "lo Plus = 1"

fun hi :: "quant \<Rightarrow> nat \<Rightarrow> nat" where
  "hi One n = min 1 n"
| "hi Star n = n"
| "hi Plus n = n"

text \<open>\<open>greedy l n f\<close> tries the lengths \<open>n\<close>, \<open>n - 1\<close>, ... down to \<open>l\<close> and keeps
  the first one on which the continuation \<open>f\<close> succeeds.\<close>

fun greedy :: "nat \<Rightarrow> nat \<Rightarrow> (nat \<Rightarrow> 'a option) \<Rightarrow> 'a option" where
  "greedy l 0 f = (if l = 0 then f 0 else None)"
| "greedy l (Suc n) f =
     (if Suc n < l then None
      else (case f (Suc n) of Some r \<Rightarrow> Some r | None \<Rightarrow> greedy l n f))"

text \<open>\<open>run_items eol items s\<close> matches the pattern at the start of \<open>s\<close>; with \<open>eol\<close>
  the pattern ends in \<^verbatim>\<open>$\<close> and must use up the input.\<close>

fun run_items :: "bool \<Rightarrow> 'c item list \<Rightarrow> 'c list \<Rightarrow> 'c list list option" where
  "run_items eol [] s = (if eol \<and> s \<noteq> [] then None else Some [])"
| "run_items eol ((p, q) # items) s =
     greedy (lo q) (hi q (length (takeWhile p s)))
       (\<lambda>k. map_option ((#) (take k s)) (run_items eol items (drop k s)))"

text \<open>An unanchored search tries every start position from the left.\<close>

fun search :: "bool \<Rightarrow> 'c item list \<Rightarrow> 'c list \<Rightarrow> 'c list list option" where
  "search eol items [] = run_items eol items []"
| "search eol items (c # cs) =
     (case run_items eol items (c # cs) of
        Some segs \<Rightarrow> Some segs
      | None \<Rightarrow> search eol items cs)"


text \<open>What a match gives for one class: a piece made of characters of the class, of
  a length that the quantifier allows.\<close>

definition seg_ok :: "'c item \<Rightarrow> 'c list \<Rightarrow> bool" where
  "seg_ok it seg = (list_all (fst it) seg \<and> lo (snd it) \<le> length seg \<and> (snd it = One \<longrightarrow> length seg = 1))"


section \<open>Structured extractor: \<^verbatim>\<open>robust_json_parser\<close>\<close>

datatype json =
    JNull
  | JBool bool
  | JNumber int
  | JString string
  | JArray "json list"
  | JObject "(string \<times> json) list"

datatype py_exception =
  JSONDecodeError | AttributeError | KeyError | RecursionError | OtherError string

text \<open>\<^verbatim>\<open>pattern = r'({.*})'\<close> under \<^verbatim>\<open>re.DOTALL\<close>: the dot matches every character.\<close>

definition json_pattern :: "char item list" where
  "json_pattern =
     [((\<lambda>c. c = CHR ''{''), One), ((\<lambda>c. True), Star), ((\<lambda>c. c = CHR ''}''), One)]"

text \<open>\<^verbatim>\<open>match = re.search(pattern, text, re.DOTALL)\<close> followed by \<^verbatim>\<open>match.group(1)\<close>;
  the group spans the whole pattern. \<open>None\<close> is Python's \<^verbatim>\<open>None\<close> match.\<close>

definition json_regex_group :: "string \<Rightarrow> string option" where
  "json_regex_group text = map_option concat (search False json_pattern text)"

text \<open>
  \<^verbatim>\<open>json.loads\<close> is the standard library's parser and is a parameter \<open>loads\<close> of the
  model: it returns the parsed value or raises. Each \<^verbatim>\<open>except\<close> clause catches exactly
  the exception classes it lists; any other exception leaves the function.
\<close>

definition second_attempt :: "(string \<Rightarrow> py_exception + json) \<Rightarrow> string \<Rightarrow> py_exception + json" where
  "second_attempt loads text =
     (case json_regex_group text of
        Some json_str \<Rightarrow>
          (case loads json_str of
             Inr v \<Rightarrow> Inr v
           | Inl e \<Rightarrow> if e = JSONDecodeError \<or> e = AttributeError then Inr (JObject []) else Inl e)
      | None \<Rightarrow> Inr (JObject []))"

definition robust_json_parser :: "(string \<Rightarrow> py_exception + json) \<Rightarrow> string \<Rightarrow> py_exception + json" where
  "robust_json_parser loads text =
     (case loads text of
        Inr v \<Rightarrow> Inr v
      | Inl e \<Rightarrow> if e = JSONDecodeError then second_attempt loads text else Inl e)"

text \<open>A parser used to run the extractor on concrete texts: it accepts the empty
  object only and rejects every other text with \<^verbatim>\<open>JSONDecodeError\<close>.\<close>

definition empty_object_loads :: "string \<Rightarrow> py_exception + json" where
  "empty_object_loads s = (if s = ''{}'' then Inr (JObject []) else Inl JSONDecodeError)"

text \<open>\<^verbatim>\<open>json.loads\<close> on a text made of opening square brackets only: each bracket
  opens an array inside the one before, and CPython's decoder raises \<^verbatim>\<open>RecursionError\<close>
  once the nesting reaches the depth that the interpreter allows (\<open>depth_limit\<close>, of
  the order of a thousand), before it can report the missing end of the document.\<close>

definition bracket_loads :: "nat \<Rightarrow> string \<Rightarrow> py_exception + json" where
  "bracket_loads depth_limit s =
     (if s \<noteq> [] \<and> list_all (\<lambda>c. c = CHR ''['') s \<and> depth_limit \<le> length s
      then Inl RecursionError
      else empty_object_loads s)"

text \<open>The words of the specification: a text is brace-balanced when every closing
  brace closes an earlier opening brace and none stays open.\<close>

fun balanced_from :: "nat \<Rightarrow> string \<Rightarrow> bool" where
  "balanced_from d [] = (d = 0)"
| "balanced_from d (c # cs) =
     (if c = CHR ''{'' then balanced_from (Suc d) cs
      else if c = CHR ''}'' then (0 < d \<and> balanced_from (d - 1) cs)
      else balanced_from d cs)"

definition balanced_braces :: "string \<Rightarrow> bool" where
  "balanced_braces s = balanced_from 0 s"

text \<open>The substring from the first opening brace of the text to its last closing
  brace, when a closing brace follows the first opening one.\<close>

definition first_to_last_brace :: "string \<Rightarrow> string option" where
  "first_to_last_brace text =
     (let r = dropWhile (\<lambda>c. c \<noteq> CHR ''{'') text
      in if CHR ''}'' \<in> set r then Some (rev (dropWhile (\<lambda>c. c \<noteq> CHR ''}'') (rev r))) else None)"


section \<open>Profile store: \<^verbatim>\<open>get_user_profile\<close> and \<^verbatim>\<open>update_user_profile\<close>\<close>

text \<open>Values found in profiles and plan requests: text, numbers, lists of text.\<close>

datatype pyval = PyStr string | PyInt int | PyList "string list"

type_synonym profile = "string \<rightharpoonup> pyval"

text \<open>\<^verbatim>\<open>user_profiles: Dict[str, Dict[str, Any]] = {}\<close> is a module-level dictionary. Both
  functions take the store and return their result together with the store they leave
  behind. \<^verbatim>\<open>user_id: str\<close> is falsy exactly when it is the empty string.\<close>

type_synonym profile_store = "string \<rightharpoonup> profile"

definition get_user_profile :: "profile_store \<Rightarrow> string \<Rightarrow> profile \<times> profile_store" where
  "get_user_profile user_profiles user_id =
     (if user_id = [] then (Map.empty, user_profiles)
      else (case user_profiles user_id of
              Some p \<Rightarrow> (p, user_profiles)
            | None \<Rightarrow> (Map.empty, user_profiles)))"

text \<open>\<^verbatim>\<open>new_data.copy()\<close> is a shallow copy: the same keys and values.\<close>

definition update_user_profile ::
  "profile_store \<Rightarrow> string \<Rightarrow> profile \<Rightarrow> profile \<times> profile_store" where
  "update_user_profile user_profiles user_id new_data =
     (if user_id = [] then (new_data, user_profiles)
      else (new_data, user_profiles(user_id \<mapsto> new_data)))"


section \<open>Knowledge council: parallel dispatch and aggregation\<close>

record expert_output =
  title :: string
  content :: string
  subtopics :: "(string \<times> string) list list"
  references :: "string list"
  disclaimers :: "string list"

text \<open>The dictionary stored per expert: \<^verbatim>\<open>{"title": ..., "content": ..., "subtopics": ...}\<close>.\<close>

record expert_response =
  resp_title :: string
  resp_content :: string
  resp_subtopics :: "(string \<times> string) list list"

text \<open>What \<^verbatim>\<open>future.result()\<close> does once the call has finished: it returns the
  expert's output or raises the exception of the call.\<close>

datatype outcome = Returned expert_output | Raised py_exception

record council_state =
  expert_responses :: "string \<rightharpoonup> expert_response"
  all_references :: "string list"
  all_disclaimers :: "string list"

definition empty_council_state :: council_state where
  "empty_council_state =
     \<lparr>expert_responses = Map.empty, all_references = [], all_disclaimers = []\<rparr>"

text \<open>The body of the \<^verbatim>\<open>try\<close> block after \<^verbatim>\<open>result = future.result()\<close>.\<close>

definition collect :: "string \<Rightarrow> expert_output \<Rightarrow> council_state \<Rightarrow> council_state" where
  "collect expert_name result st =
     (let st1 = st\<lparr>expert_responses := (expert_responses st)(expert_name \<mapsto>
                   \<lparr>resp_title = title result, resp_content = content result,
                    resp_subtopics = subtopics result\<rparr>)\<rparr>;
          st2 = (if references result \<noteq> []
                 then st1\<lparr>all_references := all_references st1 @ references result\<rparr> else st1);
          st3 = (if disclaimers result \<noteq> []
                 then st2\<lparr>all_disclaimers := all_disclaimers st2 @ disclaimers result\<rparr> else st2)
      in st3)"

text \<open>One iteration of the loop once the future has settled. The source elides the body
  of \<^verbatim>\<open>except Exception as e:\<close>, so the handler is the parameter \<open>on_error\<close>.\<close>

definition loop_body ::
  "(string \<Rightarrow> py_exception \<Rightarrow> council_state \<Rightarrow> council_state) \<Rightarrow>
   string \<times> outcome \<Rightarrow> council_state \<Rightarrow> council_state" where
  "loop_body on_error fut st =
     (case snd fut of
        Returned result \<Rightarrow> collect (fst fut) result st
      | Raised e \<Rightarrow> on_error (fst fut) e st)"

text \<open>
  The calls run in a thread pool and finish in some order: \<open>pending\<close> lists the futures
  (by their position in \<^verbatim>\<open>future_to_expert\<close>) in the order in which they will finish,
  \<open>finished\<close> holds those that have. \<^verbatim>\<open>future.result()\<close> blocks until its future has
  finished; \<open>None\<close> means that it never does.
\<close>

fun await :: "nat \<Rightarrow> nat list \<Rightarrow> nat list \<Rightarrow> (nat list \<times> nat list) option" where
  "await i finished [] = (if i \<in> set finished then Some (finished, []) else None)"
| "await i finished (j # pending) =
     (if i \<in> set finished then Some (finished, j # pending)
      else await i (j # finished) pending)"

text \<open>\<^verbatim>\<open>for future in future_to_expert:\<close> visits the futures in the order in which the
  dictionary received them, which is the order of \<^verbatim>\<open>required_experts\<close>.\<close>

fun process_results ::
  "(string \<Rightarrow> py_exception \<Rightarrow> council_state \<Rightarrow> council_state) \<Rightarrow> nat \<Rightarrow>
   (string \<times> outcome) list \<Rightarrow> nat list \<Rightarrow> nat list \<Rightarrow> council_state \<Rightarrow> council_state option" where
  "process_results on_error i [] finished pending st = Some st"
| "process_results on_error i (fut # futures) finished pending st =
     (case await i finished pending of
        None \<Rightarrow> None
      | Some (finished', pending') \<Rightarrow>
          process_results on_error (Suc i) futures finished' pending' (loop_body on_error fut st))"

text \<open>The dictionary comprehension: \<^verbatim>\<open>self.experts[expert]\<close> raises \<^verbatim>\<open>KeyError\<close> for a
  name that is not an expert; otherwise the call is submitted. An expert is the
  function from the input to what its call will return or raise.\<close>

fun submit_all ::
  "(string \<rightharpoonup> ('i \<Rightarrow> outcome)) \<Rightarrow> 'i \<Rightarrow> string list \<Rightarrow> py_exception + (string \<times> outcome) list" where
  "submit_all experts expert_input [] = Inr []"
| "submit_all experts expert_input (expert # required_experts) =
     (case experts expert of
        None \<Rightarrow> Inl KeyError
      | Some process_query \<Rightarrow>
          (case submit_all experts expert_input required_experts of
             Inl e \<Rightarrow> Inl e
           | Inr futures \<Rightarrow> Inr ((expert, process_query expert_input) # futures)))"

definition consult ::
  "(string \<rightharpoonup> ('i \<Rightarrow> outcome)) \<Rightarrow> (string \<Rightarrow> py_exception \<Rightarrow> council_state \<Rightarrow> council_state) \<Rightarrow>
   string list \<Rightarrow> 'i \<Rightarrow> nat list \<Rightarrow> py_exception + council_state option" where
  "consult experts on_error required_experts expert_input schedule =
     (case submit_all experts expert_input required_experts of
        Inl e \<Rightarrow> Inl e
      | Inr futures \<Rightarrow> Inr (process_results on_error 0 futures [] schedule empty_council_state))"

text \<open>Modelled from the spec: the body of the handler \<^verbatim>\<open>except Exception as e:\<close>, which
  the source leaves out (\<^verbatim>\<open># Handle error...\<close>). The specification says that the failed
  expert is omitted from the bundle and that its failure is not reported as an error:
  the handler leaves the aggregation as it is.\<close>

definition omit_failed :: "string \<Rightarrow> py_exception \<Rightarrow> council_state \<Rightarrow> council_state" where
  "omit_failed expert_name e st = st"

text \<open>Aggregation of settled futures in dispatch order, without the waiting.\<close>

definition merge_settled ::
  "(string \<Rightarrow> py_exception \<Rightarrow> council_state \<Rightarrow> council_state) \<Rightarrow>
   (string \<times> outcome) list \<Rightarrow> council_state \<Rightarrow> council_state" where
  "merge_settled on_error futures st = fold (loop_body on_error) futures st"

definition succeeded :: "(string \<times> expert_output) list \<Rightarrow> (string \<times> outcome) list" where
  "succeeded answers = map (\<lambda>(name, out). (name, Returned out)) answers"

definition response_of :: "expert_output \<Rightarrow> expert_response" where
  "response_of result =
     \<lparr>resp_title = title result, resp_content = content result, resp_subtopics = subtopics result\<rparr>"


text \<open>The bundle that the council returns: the experts' answers under their names and
  the merged references and disclaimers.\<close>

record knowledge_bundle =
  bundle_answers :: "string \<rightharpoonup> expert_response"
  bundle_references :: "string list"
  bundle_disclaimers :: "string list"

text \<open>Modelled from the spec: the code that follows the aggregation loop and builds the
  returned bundle, which the source does not show (the excerpt ends inside the
  \<^verbatim>\<open>try\<close> block). The specification says: union references and disclaimers across
  succeeded experts, deduplicated by exact text match; preserve each expert's structured
  answer keyed by domain identifier.\<close>

definition build_bundle :: "council_state \<Rightarrow> knowledge_bundle" where
  "build_bundle st =
     \<lparr>bundle_answers = expert_responses st,
      bundle_references = remdups (all_references st),
      bundle_disclaimers = remdups (all_disclaimers st)\<rparr>"

text \<open>What the call submitted for an expert name will return or raise.\<close>

definition expert_outcome :: "(string \<rightharpoonup> ('i \<Rightarrow> outcome)) \<Rightarrow> 'i \<Rightarrow> string \<Rightarrow> outcome" where
  "expert_outcome experts expert_input expert =
     (case experts expert of
        None \<Rightarrow> Raised KeyError
      | Some process_query \<Rightarrow> process_query expert_input)"

text \<open>Two answers and a council of three experts, one of which fails, to run the
  aggregation on.\<close>

definition nutrition_answer :: expert_output where
  "nutrition_answer =
     \<lparr>title = ''Calories'', content = ''Eat slightly less than you burn.'', subtopics = [],
      references = [''WHO''], disclaimers = [''Not medical advice'']\<rparr>"

definition fitness_answer :: expert_output where
  "fitness_answer =
     \<lparr>title = ''Training'', content = ''Walk every day.'', subtopics = [],
      references = [''WHO''], disclaimers = [''Not medical advice'']\<rparr>"

definition example_experts :: "string \<rightharpoonup> (unit \<Rightarrow> outcome)" where
  "example_experts =
     [''nutrition'' \<mapsto> (\<lambda>_. Returned nutrition_answer),
      ''fitness'' \<mapsto> (\<lambda>_. Returned fitness_answer),
      ''mental_wellness'' \<mapsto> (\<lambda>_. Raised (OtherError ''timeout''))]"


section \<open>Plan generator: \<^verbatim>\<open>generate_plan\<close>\<close>

text \<open>The four helper methods \<^verbatim>\<open>_generate_diet_plan\<close>, \<^verbatim>\<open>_generate_fitness_plan\<close>,
  \<^verbatim>\<open>_generate_lifestyle_recommendations\<close> and \<^verbatim>\<open>_generate_personalized_notes\<close> are
  parameters: each maps the goal and the profile to a plan component.\<close>

definition plan_type_of :: "(string \<rightharpoonup> pyval) \<Rightarrow> pyval" where
  "plan_type_of request =
     (case request ''plan_type'' of Some v \<Rightarrow> v | None \<Rightarrow> PyStr ''general'')"

definition goal_of :: "(string \<rightharpoonup> pyval) \<Rightarrow> pyval" where
  "goal_of request =
     (case request ''goal'' of Some v \<Rightarrow> v | None \<Rightarrow> PyStr ''overall health improvement'')"

definition generate_plan ::
  "(pyval \<Rightarrow> profile \<Rightarrow> 'v) \<Rightarrow> (pyval \<Rightarrow> profile \<Rightarrow> 'v) \<Rightarrow>
   (pyval \<Rightarrow> profile \<Rightarrow> 'v) \<Rightarrow> (pyval \<Rightarrow> profile \<Rightarrow> 'v) \<Rightarrow>
   (string \<rightharpoonup> pyval) \<Rightarrow> profile \<Rightarrow> (string \<rightharpoonup> 'v)" where
  "generate_plan generate_diet_plan generate_fitness_plan generate_lifestyle_recommendations
       generate_personalized_notes request user_profile =
     (let plan_type = plan_type_of request;
          goal = goal_of request;
          plan_components = Map.empty;
          plan_components =
            (if plan_type \<in> set [PyStr ''diet'', PyStr ''general'']
             then plan_components(''diet_plan'' \<mapsto> generate_diet_plan goal user_profile)
             else plan_components);
          plan_components =
            (if plan_type \<in> set [PyStr ''fitness'', PyStr ''general'']
             then plan_components(''fitness_plan'' \<mapsto> generate_fitness_plan goal user_profile)
             else plan_components);
          plan_components = plan_components(''lifestyle_recommendations'' \<mapsto>
             generate_lifestyle_recommendations goal user_profile);
          plan_components = plan_components(''personalized_notes'' \<mapsto>
             generate_personalized_notes goal user_profile)
      in plan_components)"


section \<open>Front end: \<^verbatim>\<open>parseListToStructured\<close>\<close>

text \<open>A JavaScript string is a sequence of UTF-16 code units, here natural numbers.
  \<^verbatim>\<open>\s\<close> and \<^verbatim>\<open>trim()\<close> use the white space and line terminator code points of
  ECMAScript; the dot of a pattern without the \<^verbatim>\<open>s\<close> flag matches everything but a
  line terminator.\<close>

type_synonym js_string = "nat list"

definition js :: "string \<Rightarrow> js_string" where
  "js s = map of_char s"

definition is_line_terminator :: "nat \<Rightarrow> bool" where
  "is_line_terminator c = (c \<in> set [10, 13, 8232, 8233])"

definition is_white_space :: "nat \<Rightarrow> bool" where
  "is_white_space c =
     (c \<in> set [9, 11, 12, 32, 160, 5760, 8239, 8287, 12288, 65279] \<or> (8192 \<le> c \<and> c \<le> 8202))"

definition is_space :: "nat \<Rightarrow> bool" where
  "is_space c = (is_white_space c \<or> is_line_terminator c)"

definition is_digit :: "nat \<Rightarrow> bool" where
  "is_digit c = (48 \<le> c \<and> c \<le> 57)"

definition is_dot :: "nat \<Rightarrow> bool" where
  "is_dot c = (\<not> is_line_terminator c)"

definition js_trim :: "js_string \<Rightarrow> js_string" where
  "js_trim s = rev (dropWhile is_space (rev (dropWhile is_space s)))"

text \<open>\<^verbatim>\<open>s.split(sep)\<close> for a separator of one code unit.\<close>

fun js_split :: "nat \<Rightarrow> js_string \<Rightarrow> js_string list" where
  "js_split sep [] = [[]]"
| "js_split sep (c # cs) =
     (if c = sep then [] # js_split sep cs
      else (case js_split sep cs of
              [] \<Rightarrow> [[c]]
            | l # ls \<Rightarrow> (c # l) # ls))"

text \<open>\<^verbatim>\<open>/^(\d+\.\s*)(.+)$/\<close>: digits, a full stop (46), white space, the rest.\<close>

definition numbered_pattern :: "nat item list" where
  "numbered_pattern =
     [(is_digit, Plus), ((\<lambda>c. c = 46), One), (is_space, Star), (is_dot, Plus)]"

text \<open>\<^verbatim>\<open>/^\*\*([^:]+):\*\*\s*(.+)$/\<close>: the asterisk is 42 and the colon 58.\<close>

definition title_pattern :: "nat item list" where
  "title_pattern =
     [((\<lambda>c. c = 42), One), ((\<lambda>c. c = 42), One), ((\<lambda>c. c \<noteq> 58), Plus), ((\<lambda>c. c = 58), One),
      ((\<lambda>c. c = 42), One), ((\<lambda>c. c = 42), One), (is_space, Star), (is_dot, Plus)]"

text \<open>The capture group made of the pieces \<open>i\<close> to \<open>j - 1\<close> of a match.\<close>

definition capture :: "nat \<Rightarrow> nat \<Rightarrow> 'c list list \<Rightarrow> 'c list" where
  "capture i j segs = concat (take (j - i) (drop i segs))"

text \<open>The objects pushed on \<^verbatim>\<open>result\<close>; an absent property is \<open>None\<close>.\<close>

record list_item =
  item_number :: "js_string option"
  item_title :: "js_string option"
  item_content :: js_string

definition parse_line :: "js_string \<Rightarrow> list_item" where
  "parse_line line =
     (case run_items True numbered_pattern line of
        Some m \<Rightarrow>
          (case run_items True title_pattern (capture 3 4 m) of
             Some contentMatch \<Rightarrow>
               \<lparr>item_number = Some (js_trim (capture 0 3 m)),
                item_title = Some (capture 2 3 contentMatch),
                item_content = js_trim (capture 7 8 contentMatch)\<rparr>
           | None \<Rightarrow>
               \<lparr>item_number = Some (js_trim (capture 0 3 m)),
                item_title = None,
                item_content = js_trim (capture 3 4 m)\<rparr>)
      | None \<Rightarrow> \<lparr>item_number = None, item_title = None, item_content = js_trim line\<rparr>)"

text \<open>\<^verbatim>\<open>listText.split('\n').filter(line => line.trim())\<close>: the lines that are not
  blank; the line feed is 10.\<close>

definition non_blank_lines :: "js_string \<Rightarrow> js_string list" where
  "non_blank_lines listText = filter (\<lambda>line. js_trim line \<noteq> []) (js_split 10 listText)"

text \<open>The argument is \<open>None\<close> for \<^verbatim>\<open>null\<close> or \<^verbatim>\<open>undefined\<close>; \<^verbatim>\<open>!listText\<close> holds for
  these and for the empty string.\<close>

definition parseListToStructured :: "js_string option \<Rightarrow> list_item list" where
  "parseListToStructured listText =
     (case listText of
        None \<Rightarrow> []
      | Some t \<Rightarrow> if t = [] then [] else map parse_line (non_blank_lines t))"

text \<open>Whether \<^verbatim>\<open>line.match(/^(\d+\.\s*)(.+)$/)\<close> finds a match.\<close>

definition numbered :: "js_string \<Rightarrow> bool" where
  "numbered line = (run_items True numbered_pattern line \<noteq> None)"


text \<open>
  The items in words, without the patterns. A numbered line is a run of digits, a full
  stop and a rest; what the second group takes of the rest is the rest without its
  leading white space or, when the rest is white space only, its last character, and
  it must have no line terminator. The number of the item is the digits with the full
  stop, its content the trimmed second group. When the second group is a title between
  \<^verbatim>\<open>**\<close> and \<^verbatim>\<open>:**\<close> (the title has no colon and is not empty) followed by a text of
  the same kind, the item has the title, and the trimmed text after the title as its
  content. Any other line gives an item with the trimmed line as content and nothing
  else.
\<close>

definition strip_prefix :: "'a list \<Rightarrow> 'a list \<Rightarrow> 'a list option" where
  "strip_prefix p s = (if take (length p) s = p then Some (drop (length p) s) else None)"

text \<open>What \<^verbatim>\<open>\s*(.+)$\<close> leaves to its group.\<close>

definition last_group :: "js_string \<Rightarrow> js_string option" where
  "last_group rest =
     (let r = dropWhile is_space rest
      in if r \<noteq> [] then (if list_all is_dot r then Some r else None)
         else if rest \<noteq> [] \<and> is_dot (last rest) then Some [last rest]
         else None)"

definition numbered_parts :: "js_string \<Rightarrow> (js_string \<times> js_string) option" where
  "numbered_parts line =
     (let d = takeWhile is_digit line
      in if d = [] then None
         else (case strip_prefix [46] (drop (length d) line) of
                 None \<Rightarrow> None
               | Some rest \<Rightarrow> map_option (Pair d) (last_group rest)))"

definition title_parts :: "js_string \<Rightarrow> (js_string \<times> js_string) option" where
  "title_parts r =
     (case strip_prefix [42, 42] r of
        None \<Rightarrow> None
      | Some r1 \<Rightarrow>
          (let t = takeWhile (\<lambda>c. c \<noteq> 58) r1
           in if t = [] then None
              else (case strip_prefix [58, 42, 42] (drop (length t) r1) of
                      None \<Rightarrow> None
                    | Some r2 \<Rightarrow> map_option (Pair t) (last_group r2))))"

definition item_of_line :: "js_string \<Rightarrow> list_item" where
  "item_of_line line =
     (case numbered_parts line of
        None \<Rightarrow> \<lparr>item_number = None, item_title = None, item_content = js_trim line\<rparr>
      | Some (d, r) \<Rightarrow>
          (case title_parts r of
             None \<Rightarrow> \<lparr>item_number = Some (d @ [46]), item_title = None, item_content = js_trim r\<rparr>
           | Some (t, c) \<Rightarrow>
               \<lparr>item_number = Some (d @ [46]), item_title = Some t, item_content = js_trim c\<rparr>))"


section \<open>Front end: the BMI of \<^verbatim>\<open>UserProfileCard\<close>\<close>

text \<open>Numbers are the doubles of JavaScript, each given by its exact rational value,
  with NaN and the two infinities; the sign of a zero is not kept.\<close>

datatype js_number = NaN | Inf bool | Fin rat

datatype js_value = Undefined | Null | Num js_number | Str js_string

definition truthy :: "js_value \<Rightarrow> bool" where
  "truthy v =
     (case v of
        Undefined \<Rightarrow> False
      | Null \<Rightarrow> False
      | Num n \<Rightarrow> n \<noteq> NaN \<and> n \<noteq> Fin 0
      | Str s \<Rightarrow> s \<noteq> [])"

text \<open>\<open>ToNumber\<close>; the conversion of a string to a number is the parameter
  \<open>string_to_number\<close>.\<close>

definition to_number :: "(js_string \<Rightarrow> js_number) \<Rightarrow> js_value \<Rightarrow> js_number" where
  "to_number string_to_number v =
     (case v of
        Undefined \<Rightarrow> NaN
      | Null \<Rightarrow> Fin 0
      | Num n \<Rightarrow> n
      | Str s \<Rightarrow> string_to_number s)"

definition js_positive :: "js_number \<Rightarrow> bool" where
  "js_positive n = (case n of NaN \<Rightarrow> False | Inf pos \<Rightarrow> pos | Fin r \<Rightarrow> 0 < r)"

text \<open>
  Arithmetic on doubles gives the exact result rounded to the nearest double, a tie
  going to the double with the even significand. \<open>binade r\<close> is the exponent of the
  doubles next to \<open>r\<close>: the largest \<open>e\<close> from -1022 to 1023 with \<open>2 powi e \<le> r\<close>, and
  -1022, the exponent of the subnormal doubles, when there is none. Doubles of that
  exponent lie \<open>2 powi (e - 52)\<close> apart. A result that rounds to \<open>2 powi 1024\<close> or more
  is an infinity; a result of at most \<open>2 powi (- 1075)\<close> in size rounds to zero.
\<close>

definition round_half_even :: "rat \<Rightarrow> int" where
  "round_half_even x =
     (let f = \<lfloor>x\<rfloor>
      in if x - of_int f < 1 / 2 then f
         else if 1 / 2 < x - of_int f then f + 1
         else if even f then f else f + 1)"

fun binade_from :: "nat \<Rightarrow> rat \<Rightarrow> int" where
  "binade_from 0 r = - 1022"
| "binade_from (Suc k) r =
     (if 2 powi (int (Suc k) - 1022) \<le> r then int (Suc k) - 1022 else binade_from k r)"

definition binade :: "rat \<Rightarrow> int" where
  "binade r = binade_from 2045 r"

definition round_double :: "rat \<Rightarrow> js_number" where
  "round_double r =
     (let q = 2 powi (binade \<bar>r\<bar> - 52);
          m = of_int (round_half_even (\<bar>r\<bar> / q)) * q
      in if 2 powi 1024 \<le> m then Inf (0 < r) else Fin (if 0 \<le> r then m else - m))"

definition js_mul :: "js_number \<Rightarrow> js_number \<Rightarrow> js_number" where
  "js_mul a b =
     (case (a, b) of
        (NaN, _) \<Rightarrow> NaN
      | (_, NaN) \<Rightarrow> NaN
      | (Inf p, Inf q) \<Rightarrow> Inf (p = q)
      | (Inf p, Fin r) \<Rightarrow> if r = 0 then NaN else Inf (p = (0 < r))
      | (Fin r, Inf p) \<Rightarrow> if r = 0 then NaN else Inf (p = (0 < r))
      | (Fin r, Fin t) \<Rightarrow> round_double (r * t))"

definition js_div :: "js_number \<Rightarrow> js_number \<Rightarrow> js_number" where
  "js_div a b =
     (case (a, b) of
        (NaN, _) \<Rightarrow> NaN
      | (_, NaN) \<Rightarrow> NaN
      | (Inf p, Inf q) \<Rightarrow> NaN
      | (Inf p, Fin r) \<Rightarrow> Inf (p = (0 \<le> r))
      | (Fin r, Inf p) \<Rightarrow> Fin 0
      | (Fin r, Fin t) \<Rightarrow>
          if t = 0 then (if r = 0 then NaN else Inf (0 < r)) else round_double (r / t))"

text \<open>\<^verbatim>\<open>x.toFixed(1)\<close> is the decimal numeral with one digit after the point that is
  nearest to the size of \<open>x\<close>, the larger one at a tie, with the sign of \<open>x\<close>; the model
  keeps the number that the numeral denotes.\<close>

definition to_fixed1 :: "js_number \<Rightarrow> js_number" where
  "to_fixed1 x =
     (case x of
        Fin r \<Rightarrow> Fin ((if 0 \<le> r then 1 else - 1) * of_int \<lfloor>\<bar>r\<bar> * 10 + 1 / 2\<rfloor> / 10)
      | _ \<Rightarrow> x)"

definition field :: "(string \<times> js_value) list \<Rightarrow> string \<Rightarrow> js_value" where
  "field profile name = (case map_of profile name of Some v \<Rightarrow> v | None \<Rightarrow> Undefined)"

text \<open>The divisor \<^verbatim>\<open>profile.height_inches * profile.height_inches\<close>.\<close>

definition bmi_divisor :: "(js_string \<Rightarrow> js_number) \<Rightarrow> (string \<times> js_value) list \<Rightarrow> js_number" where
  "bmi_divisor string_to_number profile =
     js_mul (to_number string_to_number (field profile ''height_inches''))
            (to_number string_to_number (field profile ''height_inches''))"

text \<open>\<^verbatim>\<open>let bmi = null; if (...) { bmi = (...).toFixed(1); }\<close>\<close>

definition compute_bmi ::
  "(js_string \<Rightarrow> js_number) \<Rightarrow> (string \<times> js_value) list \<Rightarrow> js_number option" where
  "compute_bmi string_to_number profile =
     (if truthy (field profile ''weight_lbs'') \<and> truthy (field profile ''height_inches'')
         \<and> js_positive (to_number string_to_number (field profile ''height_inches''))
      then Some (to_fixed1
             (js_div (js_mul (to_number string_to_number (field profile ''weight_lbs'')) (Fin 703))
                     (bmi_divisor string_to_number profile)))
      else None)"





section \<open>Properties of the matcher\<close>

lemma greedy_None: "greedy l n f = None \<longleftrightarrow> (\<forall>k. l \<le> k \<and> k \<le> n \<longrightarrow> f k = None)"
proof (induction n)
  case 0
  then show ?case by auto
next
  case (Suc n)
  show ?case
  proof (cases "Suc n < l")
    case True
    then show ?thesis by auto
  next
    case False
    show ?thesis
    proof (cases "f (Suc n)")
      case None
      then show ?thesis using False Suc by (auto simp: le_Suc_eq)
    next
      case (Some r)
      moreover have "l \<le> Suc n" using False by simp
      ultimately show ?thesis using False by (auto intro!: exI[of _ "Suc n"])
    qed
  qed
qed

lemma greedy_SomeI:
  "l \<le> k \<Longrightarrow> k \<le> n \<Longrightarrow> f k = Some r \<Longrightarrow> (\<And>j. k < j \<Longrightarrow> j \<le> n \<Longrightarrow> f j = None)
   \<Longrightarrow> greedy l n f = Some r"
proof (induction n)
  case 0
  then show ?case by simp
next
  case (Suc n)
  show ?case
  proof (cases "k = Suc n")
    case True
    then show ?thesis using Suc.prems by simp
  next
    case False
    then have "k \<le> n" using Suc.prems by simp
    moreover have "f (Suc n) = None" using Suc.prems False by simp
    ultimately show ?thesis using Suc by simp
  qed
qed

lemma greedy_SomeD:
  "greedy l n f = Some r \<Longrightarrow>
   \<exists>k. l \<le> k \<and> k \<le> n \<and> f k = Some r \<and> (\<forall>j. k < j \<and> j \<le> n \<longrightarrow> f j = None)"
proof (induction n)
  case 0
  then show ?case by (auto split: if_splits)
next
  case (Suc n)
  show ?case
  proof (cases "f (Suc n)")
    case None
    with Suc.prems have g: "greedy l n f = Some r" and "\<not> Suc n < l"
      by (auto split: if_splits)
    from Suc.IH[OF g] obtain k where
      "l \<le> k" "k \<le> n" "f k = Some r" "\<forall>j. k < j \<and> j \<le> n \<longrightarrow> f j = None"
      by blast
    then show ?thesis using None by (intro exI[of _ k]) (auto simp: le_Suc_eq)
  next
    case (Some r')
    with Suc.prems have "r' = r" "\<not> Suc n < l" by (auto split: if_splits)
    then show ?thesis using Some by (intro exI[of _ "Suc n"]) auto
  qed
qed

lemma run_items_One:
  "run_items eol ((p, One) # items) s =
     (case s of [] \<Rightarrow> None
      | c # cs \<Rightarrow> if p c then map_option ((#) [c]) (run_items eol items cs) else None)"
  by (cases s) (auto split: option.splits)

lemma takeWhile_True: "takeWhile (\<lambda>c. True) s = s"
  by (induction s) simp_all

lemma run_items_Star_any:
  "run_items eol ((\<lambda>c. True, Star) # items) s =
     greedy 0 (length s) (\<lambda>k. map_option ((#) (take k s)) (run_items eol items (drop k s)))"
  by (simp add: takeWhile_True)

declare run_items.simps [simp del] greedy.simps [simp del]

lemma drop_Cons_notin: "x \<notin> set s \<Longrightarrow> drop k s = c # cs \<Longrightarrow> c \<noteq> x"
  by (metis in_set_dropD list.set_intros(1))


lemma hi_le: "hi q n \<le> n"
  by (cases q) simp_all

lemma take_takeWhile_all: "k \<le> length (takeWhile p s) \<Longrightarrow> list_all p (take k s)"
proof -
  assume k: "k \<le> length (takeWhile p s)"
  have "take k s = take k (takeWhile p s @ dropWhile p s)" by simp
  also have "\<dots> = take k (takeWhile p s)" using k by (simp del: takeWhile_dropWhile_id)
  finally have "set (take k s) \<subseteq> set (takeWhile p s)" by (simp add: set_take_subset)
  then show ?thesis by (auto simp: list_all_iff dest: set_takeWhileD)
qed

lemma run_items_sound:
  "run_items eol items s = Some segs \<Longrightarrow>
   list_all2 seg_ok items segs \<and> (\<exists>rest. s = concat segs @ rest \<and> (eol \<longrightarrow> rest = []))"
proof (induction items arbitrary: s segs)
  case Nil
  then show ?case by (auto simp: run_items.simps split: if_splits)
next
  case (Cons it items)
  obtain p q where it: "it = (p, q)" by (cases it)
  let ?n = "length (takeWhile p s)"
  let ?f = "\<lambda>k. map_option ((#) (take k s)) (run_items eol items (drop k s))"
  from Cons.prems have "greedy (lo q) (hi q ?n) ?f = Some segs"
    by (simp add: it run_items.simps)
  from greedy_SomeD[OF this] obtain k where
    k: "lo q \<le> k" "k \<le> hi q ?n" and fk: "?f k = Some segs" by blast
  from fk obtain segs' where r: "run_items eol items (drop k s) = Some segs'"
    and segs: "segs = take k s # segs'" by auto
  from Cons.IH[OF r] obtain rest where
    ih: "list_all2 seg_ok items segs'" "drop k s = concat segs' @ rest" "eol \<longrightarrow> rest = []"
    by blast
  have kn: "k \<le> ?n" using k(2) hi_le[of q ?n] by simp
  then have kl: "k \<le> length s" using length_takeWhile_le[of p s] by simp
  have len: "length (take k s) = k" using kl by simp
  have "q = One \<longrightarrow> k = 1" using k by (cases q) auto
  then have "seg_ok it (take k s)"
    using take_takeWhile_all[OF kn] k(1) unfolding seg_ok_def it len by simp
  then have a: "list_all2 seg_ok (it # items) segs"
    using ih(1) by (simp add: segs)
  have "s = take k s @ drop k s" by simp
  also have "\<dots> = concat segs @ rest" unfolding ih(2) segs by simp
  finally have b: "s = concat segs @ rest" .
  show ?case using a b ih(3) by blast
qed

lemma run_items_complete:
  "list_all2 seg_ok items segs \<Longrightarrow> (eol \<longrightarrow> rest = []) \<Longrightarrow>
   run_items eol items (concat segs @ rest) \<noteq> None"
proof (induction items arbitrary: segs)
  case Nil
  then show ?case by (simp add: run_items.simps)
next
  case (Cons it items)
  obtain p q where it: "it = (p, q)" by (cases it)
  from Cons.prems(1) obtain seg segs' where segs: "segs = seg # segs'"
    and ok: "seg_ok it seg" and rest: "list_all2 seg_ok items segs'"
    by (auto simp: list_all2_Cons1)
  let ?s = "concat segs @ rest"
  let ?n = "length (takeWhile p ?s)"
  let ?f = "\<lambda>k. map_option ((#) (take k ?s)) (run_items eol items (drop k ?s))"
  have allp: "\<And>x. x \<in> set seg \<Longrightarrow> p x" using ok by (simp add: seg_ok_def it list_all_iff)
  have "takeWhile p ?s = seg @ takeWhile p (concat segs' @ rest)"
    unfolding segs using allp by (simp add: takeWhile_append2)
  then have n: "length seg \<le> ?n" by simp
  have lo: "lo q \<le> length seg" using ok by (simp add: seg_ok_def it)
  have hi: "length seg \<le> hi q ?n" using n ok by (cases q) (simp_all add: seg_ok_def it)
  have "drop (length seg) ?s = concat segs' @ rest" by (simp add: segs)
  then have "?f (length seg) \<noteq> None" using Cons.IH[OF rest Cons.prems(2)] by simp
  then have "greedy (lo q) (hi q ?n) ?f \<noteq> None"
    using lo hi by (auto simp: greedy_None)
  then show ?case by (simp add: it run_items.simps)
qed


section \<open>Properties of the structured extractor\<close>

lemma run_close:
  "run_items False [((\<lambda>c. c = CHR ''}''), One)] t =
     (case t of [] \<Rightarrow> None | c # cs \<Rightarrow> if c = CHR ''}'' then Some [[c]] else None)"
  by (simp add: run_items_One run_items.simps(1) split: list.splits)

lemma run_close_notin:
  "CHR ''}'' \<notin> set s \<Longrightarrow> run_items False [((\<lambda>c. c = CHR ''}''), One)] (drop k s) = None"
  by (auto simp: run_close split: list.splits dest: drop_Cons_notin)

lemma run_open_nil: "run_items False json_pattern [] = None"
  by (simp add: json_pattern_def run_items_One)

lemma run_open_other: "c \<noteq> CHR ''{'' \<Longrightarrow> run_items False json_pattern (c # cs) = None"
  by (simp add: json_pattern_def run_items_One)

lemma run_open:
  "run_items False json_pattern (CHR ''{'' # s) =
     map_option ((#) ''{'')
       (greedy 0 (length s)
          (\<lambda>k. map_option ((#) (take k s))
                 (run_items False [((\<lambda>c. c = CHR ''}''), One)] (drop k s))))"
  by (simp add: json_pattern_def run_items_One run_items_Star_any)

lemma run_open_Some:
  assumes "CHR ''}'' \<notin> set post"
  shows "run_items False json_pattern (CHR ''{'' # mid @ CHR ''}'' # post) = Some [''{'', mid, ''}'']"
proof -
  let ?s = "mid @ CHR ''}'' # post"
  let ?f = "\<lambda>k. map_option ((#) (take k ?s))
                  (run_items False [((\<lambda>c. c = CHR ''}''), One)] (drop k ?s))"
  have at: "?f (length mid) = Some [mid, ''}'']"
    by (simp add: run_close)
  have later: "?f j = None" if "length mid < j" "j \<le> length ?s" for j
  proof -
    define d where "d = j - Suc (length mid)"
    have j: "j = length mid + Suc d" using that(1) by (simp add: d_def)
    have "drop j ?s = drop d post" by (simp add: j)
    then show ?thesis using run_close_notin[OF assms, of d] by simp
  qed
  have "greedy 0 (length ?s) ?f = Some [mid, ''}'']"
    by (rule greedy_SomeI[where k = "length mid"]) (use at later in auto)
  then show ?thesis by (subst run_open) simp
qed

lemma run_open_None:
  assumes "CHR ''}'' \<notin> set s"
  shows "run_items False json_pattern (CHR ''{'' # s) = None"
proof -
  have "map_option ((#) (take k s))
          (run_items False [((\<lambda>c. c = CHR ''}''), One)] (drop k s)) = None" for k
    by (simp add: run_close_notin[OF assms])
  then have "greedy 0 (length s)
      (\<lambda>k. map_option ((#) (take k s))
             (run_items False [((\<lambda>c. c = CHR ''}''), One)] (drop k s))) = None"
    by (subst greedy_None) blast
  then show ?thesis by (subst run_open) simp
qed

lemma search_no_close: "CHR ''}'' \<notin> set s \<Longrightarrow> search False json_pattern s = None"
proof (induction s)
  case Nil
  then show ?case by (simp add: run_open_nil)
next
  case (Cons c cs)
  then show ?case by (cases "c = CHR ''{''") (simp_all add: run_open_None run_open_other)
qed

lemma search_skip:
  "CHR ''{'' \<notin> set pre \<Longrightarrow> search False json_pattern (pre @ s) = search False json_pattern s"
  by (induction pre) (auto simp: run_open_other)

lemma json_regex_group_Some:
  assumes "CHR ''{'' \<notin> set pre" and "CHR ''}'' \<notin> set post"
  shows "json_regex_group (pre @ CHR ''{'' # mid @ CHR ''}'' # post) = Some (CHR ''{'' # mid @ ''}'')"
  by (simp add: json_regex_group_def search_skip[OF assms(1)] run_open_Some[OF assms(2)])

lemma json_regex_group_None:
  assumes "CHR ''{'' \<notin> set pre" and "CHR ''}'' \<notin> set r"
  shows "json_regex_group (pre @ CHR ''{'' # r) = None"
  by (simp add: json_regex_group_def search_skip[OF assms(1)] run_open_None[OF assms(2)]
      search_no_close[OF assms(2)])

lemma json_regex_group_no_open:
  assumes "CHR ''{'' \<notin> set text"
  shows "json_regex_group text = None"
  using search_skip[OF assms, of "[]"] by (simp add: json_regex_group_def run_open_nil)

lemma first_to_last_brace_Some:
  assumes "CHR ''{'' \<notin> set pre" and "CHR ''}'' \<notin> set post"
  shows "first_to_last_brace (pre @ CHR ''{'' # mid @ CHR ''}'' # post) = Some (CHR ''{'' # mid @ ''}'')"
proof -
  have d: "dropWhile (\<lambda>c. c \<noteq> CHR ''{'') (pre @ CHR ''{'' # mid @ CHR ''}'' # post)
           = CHR ''{'' # mid @ CHR ''}'' # post"
    using assms(1) by (subst dropWhile_append2) auto
  have "dropWhile (\<lambda>c. c \<noteq> CHR ''}'') (rev post @ CHR ''}'' # rev mid @ ''{'')
        = CHR ''}'' # rev mid @ ''{''"
    using assms(2) by (subst dropWhile_append2) auto
  then show ?thesis by (simp add: first_to_last_brace_def d)
qed

lemma first_to_last_brace_None:
  assumes "CHR ''{'' \<notin> set pre" and "CHR ''}'' \<notin> set r"
  shows "first_to_last_brace (pre @ CHR ''{'' # r) = None"
proof -
  have "dropWhile (\<lambda>c. c \<noteq> CHR ''{'') (pre @ CHR ''{'' # r) = CHR ''{'' # r"
    using assms(1) by (subst dropWhile_append2) auto
  then show ?thesis using assms(2) by (simp add: first_to_last_brace_def)
qed

lemma first_to_last_brace_no_open:
  assumes "CHR ''{'' \<notin> set text"
  shows "first_to_last_brace text = None"
proof -
  have e: "dropWhile (\<lambda>c. c \<noteq> CHR ''{'') text = []" using assms by (induction "text") auto
  show ?thesis unfolding first_to_last_brace_def e by simp
qed

lemma json_regex_group_eq: "json_regex_group text = first_to_last_brace text"
proof (cases "CHR ''{'' \<in> set text")
  case False
  then show ?thesis by (simp add: json_regex_group_no_open first_to_last_brace_no_open)
next
  case True
  then obtain pre r where t: "text = pre @ CHR ''{'' # r" and pre: "CHR ''{'' \<notin> set pre"
    by (auto dest: split_list_first)
  show ?thesis
  proof (cases "CHR ''}'' \<in> set r")
    case False
    then show ?thesis
      by (simp add: t json_regex_group_None[OF pre] first_to_last_brace_None[OF pre])
  next
    case True
    then obtain mid post where r: "r = mid @ CHR ''}'' # post" and post: "CHR ''}'' \<notin> set post"
      by (auto dest: split_list_last)
    show ?thesis
      by (simp add: t r json_regex_group_Some[OF pre post] first_to_last_brace_Some[OF pre post])
  qed
qed

text \<open>An exception of a class that the first \<^verbatim>\<open>except\<close> clause does not list leaves
  the function.\<close>

lemma robust_json_parser_propagates:
  "loads text = Inl e \<Longrightarrow> e \<noteq> JSONDecodeError \<Longrightarrow> robust_json_parser loads text = Inl e"
  by (simp add: robust_json_parser_def)

lemma second_attempt_returns:
  assumes contract: "\<And>s e. loads s = Inl e \<Longrightarrow> e = JSONDecodeError"
  shows "\<exists>v. second_attempt loads text = Inr v"
proof (cases "json_regex_group text")
  case None
  then show ?thesis by (simp add: second_attempt_def)
next
  case (Some js)
  show ?thesis
  proof (cases "loads js")
    case (Inl e)
    then have "e = JSONDecodeError" by (rule contract)
    then show ?thesis using Some Inl by (simp add: second_attempt_def)
  next
    case (Inr v)
    then show ?thesis using Some by (simp add: second_attempt_def)
  qed
qed

text \<open>If \<^verbatim>\<open>json.loads\<close> raised nothing but \<^verbatim>\<open>JSONDecodeError\<close>, the parser would
  always return, and return the empty object when both parse attempts fail.\<close>

lemma robust_json_parser_returns_when_only_JSONDecodeError:
  assumes contract: "\<And>s e. loads s = Inl e \<Longrightarrow> e = JSONDecodeError"
  shows "(\<exists>v. robust_json_parser loads text = Inr v) \<and>
         (isl (loads text) \<and> (\<forall>s. json_regex_group text = Some s \<longrightarrow> isl (loads s))
            \<longrightarrow> robust_json_parser loads text = Inr (JObject []))"
proof (intro conjI impI)
  show "\<exists>v. robust_json_parser loads text = Inr v"
  proof (cases "loads text")
    case (Inl e)
    then have "e = JSONDecodeError" by (rule contract)
    then show ?thesis
      using Inl second_attempt_returns[of loads "text"] contract
      by (simp add: robust_json_parser_def)
  next
    case (Inr v)
    then show ?thesis by (simp add: robust_json_parser_def)
  qed
next
  assume h: "isl (loads text) \<and> (\<forall>s. json_regex_group text = Some s \<longrightarrow> isl (loads s))"
  then obtain e where e: "loads text = Inl e" by (auto simp: isl_def)
  then have e': "e = JSONDecodeError" by (rule contract)
  have "second_attempt loads text = Inr (JObject [])"
  proof (cases "json_regex_group text")
    case None
    then show ?thesis by (simp add: second_attempt_def)
  next
    case (Some js)
    with h have "isl (loads js)" by simp
    then obtain d where d: "loads js = Inl d" by (auto simp: isl_def)
    then have "d = JSONDecodeError" by (rule contract)
    then show ?thesis using Some d by (simp add: second_attempt_def)
  qed
  then show "robust_json_parser loads text = Inr (JObject [])"
    using e e' by (simp add: robust_json_parser_def)
qed

text \<open>
  Claim C1 says that \<^verbatim>\<open>robust_json_parser\<close> never raises, and its docstring promises
  the parsed object or the empty dictionary if parsing fails. The code does not keep
  this: on a text of opening square brackets nested to the depth that the interpreter
  allows, \<^verbatim>\<open>json.loads\<close> raises \<^verbatim>\<open>RecursionError\<close>; the first \<^verbatim>\<open>except\<close> clause
  lists \<^verbatim>\<open>json.JSONDecodeError\<close> only, so the exception reaches the caller and no
  empty dictionary is returned.
\<close>

theorem robust_json_parser_raises_RecursionError:
  assumes "0 < n" and "depth_limit \<le> n"
  shows "robust_json_parser (bracket_loads depth_limit) (replicate n (CHR ''['')) = Inl RecursionError"
proof -
  have "bracket_loads depth_limit (replicate n (CHR ''['')) = Inl RecursionError"
    using assms by (simp add: bracket_loads_def list_all_iff)
  then show ?thesis by (simp add: robust_json_parser_def)
qed

theorem robust_json_parser_raises_RecursionError_witness:
  "robust_json_parser (bracket_loads 1000) (replicate 1000 (CHR ''['')) = Inl RecursionError"
  by (rule robust_json_parser_raises_RecursionError) simp_all

text \<open>
  Claim C5, as stated: after a failed direct parse the second stage parses the largest
  brace-balanced substring. On the text \<^verbatim>\<open>{}}\<close> the pattern selects the whole text,
  which is not brace-balanced, although its substring \<^verbatim>\<open>{}\<close> is.
\<close>

theorem second_stage_not_balanced_counterexample:
  "json_regex_group ''{}}'' = Some ''{}}'' \<and> \<not> balanced_braces ''{}}'' \<and> balanced_braces ''{}''"
  using json_regex_group_Some[of "[]" "[]" "''}''"] by (simp add: balanced_braces_def)

text \<open>
  Claim C5, amended. For every text whose direct parse fails with
  \<^verbatim>\<open>JSONDecodeError\<close>, the second stage parses exactly the substring from the first
  opening brace of the text to its last closing brace, balanced or not. It returns what
  that parse returns, and the empty object when there is no such substring or when that
  parse raises \<^verbatim>\<open>JSONDecodeError\<close> or \<^verbatim>\<open>AttributeError\<close>.
\<close>

theorem robust_json_parser_second_stage:
  assumes "loads text = Inl JSONDecodeError"
  shows "robust_json_parser loads text =
     (case first_to_last_brace text of
        None \<Rightarrow> Inr (JObject [])
      | Some s \<Rightarrow>
          (case loads s of
             Inr v \<Rightarrow> Inr v
           | Inl e \<Rightarrow> if e = JSONDecodeError \<or> e = AttributeError then Inr (JObject []) else Inl e))"
  using assms by (simp add: robust_json_parser_def second_attempt_def json_regex_group_eq)

theorem robust_json_parser_second_stage_witness:
  "empty_object_loads ''ok: {} done'' = Inl JSONDecodeError \<and>
   first_to_last_brace ''ok: {} done'' = Some ''{}'' \<and>
   robust_json_parser empty_object_loads ''ok: {} done'' = Inr (JObject [])"
proof -
  have a: "empty_object_loads ''ok: {} done'' = Inl JSONDecodeError"
    by (simp add: empty_object_loads_def)
  have b: "first_to_last_brace ''ok: {} done'' = Some ''{}''"
    by (simp add: first_to_last_brace_def)
  show ?thesis
    using robust_json_parser_second_stage[of empty_object_loads "''ok: {} done''", OF a] a b
    by (simp add: empty_object_loads_def)
qed


section \<open>Properties of the profile store\<close>

text \<open>
  Claim C2. For a user identifier that is not empty, whatever profile the store held,
  \<^verbatim>\<open>update_user_profile\<close> leaves exactly the new data stored for that user and
  returns it: the write replaces and does not merge. With \<^verbatim>\<open>{age: 30}\<close> stored and
  \<^verbatim>\<open>{weight: 150}\<close> extracted, the stored profile is \<^verbatim>\<open>{weight: 150}\<close>, without \<^verbatim>\<open>age\<close>.
\<close>

theorem update_user_profile_replaces:
  assumes "user_id \<noteq> []"
  shows "fst (update_user_profile user_profiles user_id new_data) = new_data \<and>
         snd (update_user_profile user_profiles user_id new_data) user_id = Some new_data \<and>
         fst (get_user_profile (snd (update_user_profile user_profiles user_id new_data)) user_id)
           = new_data"
  using assms by (simp add: update_user_profile_def get_user_profile_def)

theorem update_user_profile_replaces_witness:
  "snd (update_user_profile [''u1'' \<mapsto> [''age'' \<mapsto> PyInt 30]] ''u1'' [''weight'' \<mapsto> PyInt 150]) ''u1''
     = Some [''weight'' \<mapsto> PyInt 150] \<and>
   fst (get_user_profile
          (snd (update_user_profile [''u1'' \<mapsto> [''age'' \<mapsto> PyInt 30]] ''u1'' [''weight'' \<mapsto> PyInt 150]))
          ''u1'') ''age'' = None"
  using update_user_profile_replaces
          [of "''u1''" "[''u1'' \<mapsto> [''age'' \<mapsto> PyInt 30]]" "[''weight'' \<mapsto> PyInt 150]"]
  by simp

text \<open>
  Claim C8. With an empty user identifier \<^verbatim>\<open>update_user_profile\<close> returns the new
  data and leaves the store as it was, and \<^verbatim>\<open>get_user_profile\<close> returns the empty
  profile and leaves the store as it was.
\<close>

theorem falsy_user_id_leaves_store:
  "update_user_profile user_profiles [] new_data = (new_data, user_profiles) \<and>
   get_user_profile user_profiles [] = (Map.empty, user_profiles)"
  by (simp add: update_user_profile_def get_user_profile_def)


section \<open>Properties of the plan generator\<close>

text \<open>
  Claim C6. The result of \<^verbatim>\<open>generate_plan\<close> has the key \<^verbatim>\<open>diet_plan\<close> exactly when the
  request's \<^verbatim>\<open>plan_type\<close> is \<^verbatim>\<open>diet\<close> or \<^verbatim>\<open>general\<close>, the key \<^verbatim>\<open>fitness_plan\<close> exactly
  when it is \<^verbatim>\<open>fitness\<close> or \<^verbatim>\<open>general\<close>, and always the keys
  \<^verbatim>\<open>lifestyle_recommendations\<close> and \<^verbatim>\<open>personalized_notes\<close>, and no other key; each key
  holds what its helper produced from the request's goal and the profile. A request
  without \<^verbatim>\<open>plan_type\<close> counts as \<^verbatim>\<open>general\<close>, one without \<^verbatim>\<open>goal\<close> has the goal
  \<^verbatim>\<open>overall health improvement\<close>.
\<close>

theorem generate_plan_components:
  "(''diet_plan'' \<in> dom (generate_plan d f l n request p)) =
     (request ''plan_type'' = None \<or> request ''plan_type'' = Some (PyStr ''diet'') \<or>
      request ''plan_type'' = Some (PyStr ''general'')) \<and>
   (''fitness_plan'' \<in> dom (generate_plan d f l n request p)) =
     (request ''plan_type'' = None \<or> request ''plan_type'' = Some (PyStr ''fitness'') \<or>
      request ''plan_type'' = Some (PyStr ''general'')) \<and>
   generate_plan d f l n request p ''diet_plan'' =
     (if request ''plan_type'' = None \<or> request ''plan_type'' = Some (PyStr ''diet'') \<or>
         request ''plan_type'' = Some (PyStr ''general'')
      then Some (d (case request ''goal'' of
                      None \<Rightarrow> PyStr ''overall health improvement'' | Some g \<Rightarrow> g) p)
      else None) \<and>
   generate_plan d f l n request p ''fitness_plan'' =
     (if request ''plan_type'' = None \<or> request ''plan_type'' = Some (PyStr ''fitness'') \<or>
         request ''plan_type'' = Some (PyStr ''general'')
      then Some (f (case request ''goal'' of
                      None \<Rightarrow> PyStr ''overall health improvement'' | Some g \<Rightarrow> g) p)
      else None) \<and>
   generate_plan d f l n request p ''lifestyle_recommendations'' =
     Some (l (case request ''goal'' of
                None \<Rightarrow> PyStr ''overall health improvement'' | Some g \<Rightarrow> g) p) \<and>
   generate_plan d f l n request p ''personalized_notes'' =
     Some (n (case request ''goal'' of
                None \<Rightarrow> PyStr ''overall health improvement'' | Some g \<Rightarrow> g) p) \<and>
   dom (generate_plan d f l n request p) \<subseteq>
     {''diet_plan'', ''fitness_plan'', ''lifestyle_recommendations'', ''personalized_notes''}"
proof (cases "request ''plan_type''")
  case None
  then show ?thesis
    by (simp add: generate_plan_def Let_def dom_def plan_type_of_def goal_of_def subset_iff)
next
  case (Some pt)
  then show ?thesis
    by (simp add: generate_plan_def Let_def dom_def plan_type_of_def goal_of_def subset_iff)
qed

theorem generate_plan_components_witness:
  "generate_plan (\<lambda>g p. (''diet'', g)) (\<lambda>g p. (''fitness'', g)) (\<lambda>g p. (''lifestyle'', g))
     (\<lambda>g p. (''notes'', g)) [''plan_type'' \<mapsto> PyStr ''fitness'', ''goal'' \<mapsto> PyStr ''strength'']
     Map.empty ''diet_plan'' = None \<and>
   generate_plan (\<lambda>g p. (''diet'', g)) (\<lambda>g p. (''fitness'', g)) (\<lambda>g p. (''lifestyle'', g))
     (\<lambda>g p. (''notes'', g)) [''plan_type'' \<mapsto> PyStr ''fitness'', ''goal'' \<mapsto> PyStr ''strength'']
     Map.empty ''fitness_plan'' = Some (''fitness'', PyStr ''strength'') \<and>
   generate_plan (\<lambda>g p. (''diet'', g)) (\<lambda>g p. (''fitness'', g)) (\<lambda>g p. (''lifestyle'', g))
     (\<lambda>g p. (''notes'', g)) [''plan_type'' \<mapsto> PyStr ''diet''] Map.empty ''fitness_plan'' = None \<and>
   generate_plan (\<lambda>g p. (''diet'', g)) (\<lambda>g p. (''fitness'', g)) (\<lambda>g p. (''lifestyle'', g))
     (\<lambda>g p. (''notes'', g)) [''plan_type'' \<mapsto> PyStr ''diet''] Map.empty ''diet_plan''
     = Some (''diet'', PyStr ''overall health improvement'')"
  using generate_plan_components[of "\<lambda>g p. (''diet'', g)" "\<lambda>g p. (''fitness'', g)"
     "\<lambda>g p. (''lifestyle'', g)" "\<lambda>g p. (''notes'', g)"
     "[''plan_type'' \<mapsto> PyStr ''fitness'', ''goal'' \<mapsto> PyStr ''strength'']" Map.empty]
    generate_plan_components[of "\<lambda>g p. (''diet'', g)" "\<lambda>g p. (''fitness'', g)"
     "\<lambda>g p. (''lifestyle'', g)" "\<lambda>g p. (''notes'', g)"
     "[''plan_type'' \<mapsto> PyStr ''diet'']" Map.empty]
  by simp


section \<open>Properties of the knowledge council\<close>

lemma await_Some:
  "i \<in> set finished \<union> set pending \<Longrightarrow>
   \<exists>f' p'. await i finished pending = Some (f', p') \<and> set f' \<union> set p' = set finished \<union> set pending"
proof (induction pending arbitrary: finished)
  case Nil
  then show ?case by simp
next
  case (Cons j pending)
  show ?case
  proof (cases "i \<in> set finished")
    case True
    then show ?thesis by simp
  next
    case False
    with Cons.prems have "i \<in> set (j # finished) \<union> set pending" by auto
    from Cons.IH[OF this] obtain f' p' where
      "await i (j # finished) pending = Some (f', p')"
      "set f' \<union> set p' = set (j # finished) \<union> set pending" by blast
    then show ?thesis using False by auto
  qed
qed

text \<open>A future that never finishes blocks the loop.\<close>

lemma await_never:
  "i \<notin> set finished \<union> set pending \<Longrightarrow> await i finished pending = None"
  by (induction pending arbitrary: finished) auto

lemma process_results_settled:
  "(\<And>k. i \<le> k \<Longrightarrow> k < i + length futures \<Longrightarrow> k \<in> set finished \<union> set pending) \<Longrightarrow>
   process_results on_error i futures finished pending st = Some (merge_settled on_error futures st)"
proof (induction futures arbitrary: i finished pending st)
  case Nil
  then show ?case by (simp add: merge_settled_def)
next
  case (Cons fut futures)
  have "i \<in> set finished \<union> set pending" using Cons.prems[of i] by simp
  from await_Some[OF this] obtain f' p' where
    a: "await i finished pending = Some (f', p')" and
    s: "set f' \<union> set p' = set finished \<union> set pending" by blast
  have "process_results on_error (Suc i) futures f' p' (loop_body on_error fut st)
        = Some (merge_settled on_error futures (loop_body on_error fut st))"
  proof (rule Cons.IH)
    fix k assume "Suc i \<le> k" "k < Suc i + length futures"
    then show "k \<in> set f' \<union> set p'" using Cons.prems[of k] s by simp
  qed
  then show ?case using a by (simp add: merge_settled_def)
qed

lemma process_results_complete:
  assumes "set schedule = {0..<length futures}"
  shows "process_results on_error 0 futures [] schedule st = Some (merge_settled on_error futures st)"
  by (rule process_results_settled) (simp add: assms)

lemma submit_all_length:
  "submit_all experts inp required = Inr futures \<Longrightarrow> length futures = length required"
  by (induction required arbitrary: futures) (auto split: option.splits sum.splits)

lemma submit_all_Inr:
  "set required \<subseteq> dom experts \<Longrightarrow>
   submit_all experts inp required = Inr (map (\<lambda>e. (e, the (experts e) inp)) required)"
  by (induction required) (auto split: option.splits)

text \<open>
  Claim C7. When every dispatched call finishes, the council returns the same result
  for a completion order and for its reverse, and it does return: the loop takes the
  futures in dispatch order and waits for each, so the completion order only decides
  how long it waits.
\<close>

theorem consult_completion_order:
  assumes "set schedule = {0..<length required_experts}"
  shows "consult experts on_error required_experts expert_input (rev schedule)
           = consult experts on_error required_experts expert_input schedule \<and>
         consult experts on_error required_experts expert_input schedule \<noteq> Inr None"
proof (cases "submit_all experts expert_input required_experts")
  case (Inl e)
  then show ?thesis by (simp add: consult_def)
next
  case (Inr futures)
  then have len: "length futures = length required_experts" by (rule submit_all_length)
  have "process_results on_error 0 futures [] schedule empty_council_state
          = Some (merge_settled on_error futures empty_council_state)"
    by (rule process_results_complete) (simp add: assms len)
  moreover have "process_results on_error 0 futures [] (rev schedule) empty_council_state
          = Some (merge_settled on_error futures empty_council_state)"
    by (rule process_results_complete) (simp add: assms len)
  ultimately show ?thesis using Inr by (simp add: consult_def)
qed

theorem consult_completion_order_witness:
  "consult example_experts (\<lambda>name e st. st) [''nutrition'', ''mental_wellness'', ''fitness''] () [2, 1, 0]
     = consult example_experts (\<lambda>name e st. st) [''nutrition'', ''mental_wellness'', ''fitness''] () [0, 1, 2] \<and>
   consult example_experts (\<lambda>name e st. st) [''nutrition'', ''mental_wellness'', ''fitness''] () [0, 1, 2]
     \<noteq> Inr None"
proof -
  have s: "set [0, 1, 2] = {0..<length [''nutrition'', ''mental_wellness'', ''fitness'']}"
    by auto
  show ?thesis
    using consult_completion_order[OF s, of example_experts "\<lambda>name e st. st" "()"] by simp
qed

lemma collect_fields:
  "expert_responses (collect n out st) = (expert_responses st)(n \<mapsto> response_of out)"
  "all_references (collect n out st) = all_references st @ references out"
  "all_disclaimers (collect n out st) = all_disclaimers st @ disclaimers out"
  by (simp_all add: collect_def response_of_def Let_def)

lemma merge_settled_Nil: "merge_settled h [] st = st"
  by (simp add: merge_settled_def)

lemma merge_settled_Cons: "merge_settled h (fut # futs) st = merge_settled h futs (loop_body h fut st)"
  by (simp add: merge_settled_def)

lemma merge_succeeded_references:
  "all_references (merge_settled h (succeeded answers) st)
     = all_references st @ concat (map (\<lambda>a. references (snd a)) answers)"
  by (induction answers arbitrary: st)
     (simp_all add: succeeded_def merge_settled_Nil merge_settled_Cons loop_body_def collect_fields
        split: prod.splits)

lemma merge_succeeded_disclaimers:
  "all_disclaimers (merge_settled h (succeeded answers) st)
     = all_disclaimers st @ concat (map (\<lambda>a. disclaimers (snd a)) answers)"
  by (induction answers arbitrary: st)
     (simp_all add: succeeded_def merge_settled_Nil merge_settled_Cons loop_body_def collect_fields
        split: prod.splits)

lemma merge_succeeded_responses:
  "expert_responses (merge_settled h (succeeded answers) st)
     = expert_responses st ++ map_of (rev (map (\<lambda>a. (fst a, response_of (snd a))) answers))"
proof (induction answers arbitrary: st)
  case Nil
  then show ?case by (simp add: succeeded_def merge_settled_Nil)
next
  case (Cons a answers)
  have step: "merge_settled h (succeeded (a # answers)) st
              = merge_settled h (succeeded answers) (collect (fst a) (snd a) st)"
    by (simp add: succeeded_def merge_settled_Cons loop_body_def split: prod.splits)
  show ?case
    unfolding step Cons.IH
    by (simp add: collect_fields map_add_upd_left map_add_def fun_eq_iff split: option.splits)
qed

text \<open>The lists that the loop itself builds keep a text as often as it was given: two
  succeeded experts that both cite \<^verbatim>\<open>WHO\<close> leave \<^verbatim>\<open>[WHO, WHO]\<close> in
  \<^verbatim>\<open>all_references\<close>.\<close>

lemma all_references_keeps_duplicates:
  "map_option all_references
     (process_results (\<lambda>name e st. st) 0
        (succeeded [(''nutrition'', nutrition_answer), (''fitness'', fitness_answer)])
        [] [0, 1] empty_council_state) = Some [''WHO'', ''WHO'']"
  by (simp add: succeeded_def loop_body_def collect_def Let_def empty_council_state_def
      nutrition_answer_def fitness_answer_def)

lemma submit_all_outcomes:
  "set required \<subseteq> dom experts \<Longrightarrow>
   submit_all experts inp required = Inr (map (\<lambda>e. (e, expert_outcome experts inp e)) required)"
  by (induction required) (auto simp: expert_outcome_def split: option.splits)

text \<open>After the loop over succeeded answers whose calls all finish, the two lists are
  the concatenations, in dispatch order, of the experts' lists, and each expert's
  title, content and subtopics are stored under the expert's name.\<close>

lemma loop_over_succeeded:
  assumes "set schedule = {0..<length answers}"
  shows "\<exists>st. process_results on_error 0 (succeeded answers) [] schedule empty_council_state = Some st \<and>
           all_references st = concat (map (\<lambda>a. references (snd a)) answers) \<and>
           all_disclaimers st = concat (map (\<lambda>a. disclaimers (snd a)) answers) \<and>
           expert_responses st = map_of (rev (map (\<lambda>a. (fst a, response_of (snd a))) answers))"
proof -
  let ?st = "merge_settled on_error (succeeded answers) empty_council_state"
  have "process_results on_error 0 (succeeded answers) [] schedule empty_council_state = Some ?st"
    by (rule process_results_complete) (simp add: assms succeeded_def)
  moreover have "all_references ?st = concat (map (\<lambda>a. references (snd a)) answers)"
    by (simp add: merge_succeeded_references empty_council_state_def)
  moreover have "all_disclaimers ?st = concat (map (\<lambda>a. disclaimers (snd a)) answers)"
    by (simp add: merge_succeeded_disclaimers empty_council_state_def)
  moreover have "expert_responses ?st = map_of (rev (map (\<lambda>a. (fst a, response_of (snd a))) answers))"
    by (simp add: merge_succeeded_responses empty_council_state_def)
  ultimately show ?thesis by blast
qed

text \<open>
  Claim C3. For succeeded expert answers whose calls all finish, the bundle built from
  the loop's result has merged reference and disclaimer lists without a repeated text,
  holding exactly the texts that some expert gave, and it keeps each expert's title,
  content and subtopics under the expert's name (the later answer if a name is
  dispatched twice).
\<close>

theorem bundle_lists_deduplicated:
  assumes "set schedule = {0..<length answers}"
  shows "\<exists>b. map_option build_bundle
             (process_results on_error 0 (succeeded answers) [] schedule empty_council_state)
           = Some b \<and>
           distinct (bundle_references b) \<and> distinct (bundle_disclaimers b) \<and>
           set (bundle_references b) = (\<Union>a\<in>set answers. set (references (snd a))) \<and>
           set (bundle_disclaimers b) = (\<Union>a\<in>set answers. set (disclaimers (snd a))) \<and>
           bundle_answers b = map_of (rev (map (\<lambda>a. (fst a, response_of (snd a))) answers)) \<and>
           (distinct (map fst answers) \<longrightarrow>
              (\<forall>a\<in>set answers. bundle_answers b (fst a) = Some (response_of (snd a))))"
proof -
  let ?kv = "map (\<lambda>a. (fst a, response_of (snd a))) answers"
  from loop_over_succeeded[OF assms, of on_error] obtain st where
    run: "process_results on_error 0 (succeeded answers) [] schedule empty_council_state = Some st"
    and refs: "all_references st = concat (map (\<lambda>a. references (snd a)) answers)"
    and disc: "all_disclaimers st = concat (map (\<lambda>a. disclaimers (snd a)) answers)"
    and resp: "expert_responses st = map_of (rev ?kv)"
    by blast
  let ?b = "build_bundle st"
  have b: "map_option build_bundle
             (process_results on_error 0 (succeeded answers) [] schedule empty_council_state)
           = Some ?b"
    by (simp add: run)
  have d: "distinct (bundle_references ?b)" "distinct (bundle_disclaimers ?b)"
    by (simp_all add: build_bundle_def)
  have sr: "set (bundle_references ?b) = (\<Union>a\<in>set answers. set (references (snd a)))"
    by (simp add: build_bundle_def refs)
  have sd: "set (bundle_disclaimers ?b) = (\<Union>a\<in>set answers. set (disclaimers (snd a)))"
    by (simp add: build_bundle_def disc)
  have ans: "bundle_answers ?b = map_of (rev ?kv)"
    by (simp add: build_bundle_def resp)
  have keyed: "bundle_answers ?b (fst a) = Some (response_of (snd a))"
    if dn: "distinct (map fst answers)" and a: "a \<in> set answers" for a
  proof -
    have "distinct (map fst (rev ?kv))"
      using dn by (simp add: rev_map[symmetric] comp_def distinct_rev)
    moreover have "(fst a, response_of (snd a)) \<in> set (rev ?kv)" using a by auto
    ultimately show ?thesis unfolding ans by (rule map_of_is_SomeI)
  qed
  show ?thesis using b d sr sd ans keyed by blast
qed

lemma distinct_set_single: "set xs = {x} \<Longrightarrow> distinct xs \<Longrightarrow> xs = [x]"
proof (cases xs)
  case Nil
  assume "set xs = {x}"
  with Nil show ?thesis by simp
next
  case (Cons y ys)
  assume s: "set xs = {x}" and d: "distinct xs"
  from s Cons have y: "y = x" by auto
  from s d Cons y have "set ys \<subseteq> {x}" "x \<notin> set ys" by auto
  then have "ys = []" by (cases ys) auto
  with Cons y show ?thesis by simp
qed

theorem bundle_lists_deduplicated_witness:
  "\<exists>b. map_option build_bundle
          (process_results (\<lambda>name e st. st) 0
             (succeeded [(''nutrition'', nutrition_answer), (''fitness'', fitness_answer)])
             [] [1, 0] empty_council_state) = Some b \<and>
        bundle_references b = [''WHO''] \<and>
        bundle_disclaimers b = [''Not medical advice''] \<and>
        bundle_answers b ''fitness'' = Some (response_of fitness_answer) \<and>
        bundle_answers b ''nutrition'' = Some (response_of nutrition_answer)"
proof -
  let ?answers = "[(''nutrition'', nutrition_answer), (''fitness'', fitness_answer)]"
  have s: "set [1, 0] = {0..<length ?answers}"
    by auto
  from bundle_lists_deduplicated[OF s, of "\<lambda>name e st. st"] obtain b where
    b: "map_option build_bundle
          (process_results (\<lambda>name e st. st) 0 (succeeded ?answers) [] [1, 0] empty_council_state)
        = Some b"
    and dr: "distinct (bundle_references b)" and dd: "distinct (bundle_disclaimers b)"
    and sr: "set (bundle_references b) = (\<Union>a\<in>set ?answers. set (references (snd a)))"
    and sd: "set (bundle_disclaimers b) = (\<Union>a\<in>set ?answers. set (disclaimers (snd a)))"
    and k: "distinct (map fst ?answers) \<longrightarrow>
              (\<forall>a\<in>set ?answers. bundle_answers b (fst a) = Some (response_of (snd a)))"
    by blast
  have "set (bundle_references b) = {''WHO''}"
    unfolding sr by (simp add: nutrition_answer_def fitness_answer_def)
  from this dr have r: "bundle_references b = [''WHO'']"
    by (rule distinct_set_single)
  have "set (bundle_disclaimers b) = {''Not medical advice''}"
    unfolding sd by (simp add: nutrition_answer_def fitness_answer_def)
  from this dd have d: "bundle_disclaimers b = [''Not medical advice'']"
    by (rule distinct_set_single)
  have a: "bundle_answers b ''fitness'' = Some (response_of fitness_answer)"
    "bundle_answers b ''nutrition'' = Some (response_of nutrition_answer)"
    using k by simp_all
  show ?thesis using b r d a by blast
qed

lemma loop_body_omit_failed:
  "loop_body omit_failed (e, Returned out) st = collect e out st"
  "loop_body omit_failed (e, Raised x) st = st"
  by (simp_all add: loop_body_def omit_failed_def)

lemma merge_omit_responses:
  "expert_responses (merge_settled omit_failed (map (\<lambda>e. (e, g e)) es) st) e =
     (if e \<in> set es
      then (case g e of Returned out \<Rightarrow> Some (response_of out) | Raised x \<Rightarrow> expert_responses st e)
      else expert_responses st e)"
proof (induction es arbitrary: st)
  case Nil
  then show ?case by (simp add: merge_settled_Nil)
next
  case (Cons a es)
  show ?case
  proof (cases "g a")
    case (Returned out)
    then show ?thesis
      by (simp add: merge_settled_Cons loop_body_omit_failed Cons.IH collect_fields
          split: outcome.splits)
  next
    case (Raised x)
    then show ?thesis
      by (simp add: merge_settled_Cons loop_body_omit_failed Cons.IH split: outcome.splits)
  qed
qed

lemma merge_omit_all_failed:
  "(\<And>e. e \<in> set es \<Longrightarrow> \<exists>x. g e = Raised x) \<Longrightarrow>
   merge_settled omit_failed (map (\<lambda>e. (e, g e)) es) st = st"
proof (induction es arbitrary: st)
  case Nil
  then show ?case by (simp add: merge_settled_Nil)
next
  case (Cons a es)
  from Cons.prems[of a] obtain x where "g a = Raised x" by auto
  then show ?case using Cons by (simp add: merge_settled_Cons loop_body_omit_failed)
qed

text \<open>
  Claim C4. With the handler of the specification, when every selected name is an
  expert of the council and every dispatched call finishes, the council returns a
  bundle and no error; the bundle holds exactly the experts whose call returned, each
  with its own answer, whatever the other calls did; and when every call fails the
  bundle is the empty one.
\<close>

theorem failed_experts_omitted:
  assumes "set required_experts \<subseteq> dom experts"
    and "set schedule = {0..<length required_experts}"
  shows "\<exists>b. consult experts omit_failed required_experts expert_input schedule = Inr (Some b) \<and>
           dom (expert_responses b) =
             {e \<in> set required_experts. \<exists>out. expert_outcome experts expert_input e = Returned out} \<and>
           (\<forall>e\<in>set required_experts. \<forall>out.
              expert_outcome experts expert_input e = Returned out \<longrightarrow>
              expert_responses b e = Some (response_of out)) \<and>
           ((\<forall>e\<in>set required_experts. \<exists>x. expert_outcome experts expert_input e = Raised x) \<longrightarrow>
              b = empty_council_state)"
proof -
  let ?g = "expert_outcome experts expert_input"
  let ?futures = "map (\<lambda>e. (e, ?g e)) required_experts"
  let ?b = "merge_settled omit_failed ?futures empty_council_state"
  have sub: "submit_all experts expert_input required_experts = Inr ?futures"
    by (rule submit_all_outcomes[OF assms(1)])
  have "process_results omit_failed 0 ?futures [] schedule empty_council_state = Some ?b"
    by (rule process_results_complete) (simp add: assms(2))
  then have run: "consult experts omit_failed required_experts expert_input schedule = Inr (Some ?b)"
    by (simp add: consult_def sub)
  have resp: "expert_responses ?b e =
      (if e \<in> set required_experts
       then (case ?g e of Returned out \<Rightarrow> Some (response_of out) | Raised x \<Rightarrow> None)
       else None)" for e
    by (simp add: merge_omit_responses empty_council_state_def split: outcome.splits)
  have d: "dom (expert_responses ?b) = {e \<in> set required_experts. \<exists>out. ?g e = Returned out}"
  proof (rule set_eqI)
    fix e
    show "e \<in> dom (expert_responses ?b) \<longleftrightarrow>
          e \<in> {e \<in> set required_experts. \<exists>out. ?g e = Returned out}"
      by (cases "?g e") (simp_all add: resp dom_def)
  qed
  have v: "\<forall>e\<in>set required_experts. \<forall>out. ?g e = Returned out \<longrightarrow>
             expert_responses ?b e = Some (response_of out)"
    by (simp add: resp)
  have f: "(\<forall>e\<in>set required_experts. \<exists>x. ?g e = Raised x) \<longrightarrow> ?b = empty_council_state"
    by (auto intro: merge_omit_all_failed)
  show ?thesis using run d v f by blast
qed

theorem failed_experts_omitted_witness:
  "(\<exists>b. consult example_experts omit_failed [''nutrition'', ''mental_wellness'', ''fitness''] () [2, 0, 1]
          = Inr (Some b) \<and>
        expert_responses b ''mental_wellness'' = None \<and>
        expert_responses b ''nutrition'' = Some (response_of nutrition_answer) \<and>
        expert_responses b ''fitness'' = Some (response_of fitness_answer)) \<and>
   consult example_experts omit_failed [''mental_wellness''] () [0] = Inr (Some empty_council_state)"
proof -
  have d1: "set [''nutrition'', ''mental_wellness'', ''fitness''] \<subseteq> dom example_experts"
    by (simp add: example_experts_def)
  have s1: "set [2, 0, 1] = {0..<length [''nutrition'', ''mental_wellness'', ''fitness'']}"
    by auto
  have d2: "set [''mental_wellness''] \<subseteq> dom example_experts"
    by (simp add: example_experts_def)
  have s2: "set [0] = {0..<length [''mental_wellness'']}"
    by auto
  have o: "expert_outcome example_experts () ''nutrition'' = Returned nutrition_answer"
    "expert_outcome example_experts () ''fitness'' = Returned fitness_answer"
    "expert_outcome example_experts () ''mental_wellness'' = Raised (OtherError ''timeout'')"
    by (simp_all add: expert_outcome_def example_experts_def)
  from failed_experts_omitted[OF d1 s1, of "()"] obtain b where
    b: "consult example_experts omit_failed [''nutrition'', ''mental_wellness'', ''fitness''] () [2, 0, 1]
          = Inr (Some b)"
    and db: "dom (expert_responses b) =
       {e \<in> set [''nutrition'', ''mental_wellness'', ''fitness''].
          \<exists>out. expert_outcome example_experts () e = Returned out}"
    and vb: "\<forall>e\<in>set [''nutrition'', ''mental_wellness'', ''fitness'']. \<forall>out.
              expert_outcome example_experts () e = Returned out \<longrightarrow>
              expert_responses b e = Some (response_of out)"
    by blast
  have "''mental_wellness'' \<notin> dom (expert_responses b)" unfolding db by (simp add: o)
  then have m: "expert_responses b ''mental_wellness'' = None" by (simp add: dom_def)
  have n: "expert_responses b ''nutrition'' = Some (response_of nutrition_answer)"
    using vb o by simp
  have f: "expert_responses b ''fitness'' = Some (response_of fitness_answer)"
    using vb o by simp
  from failed_experts_omitted[OF d2 s2, of "()"] o
  have "consult example_experts omit_failed [''mental_wellness''] () [0] = Inr (Some empty_council_state)"
    by auto
  then show ?thesis using b m n f by blast
qed


section \<open>Properties of the list parser\<close>

lemma digit_not_space: "is_digit c \<Longrightarrow> \<not> is_space c"
  by (auto simp: is_digit_def is_space_def is_white_space_def is_line_terminator_def)

lemma stop_not_space: "\<not> is_space 46"
  by (simp add: is_space_def is_white_space_def is_line_terminator_def)

lemma stop_not_digit: "\<not> is_digit 46"
  by (simp add: is_digit_def)

lemma dropWhile_all: "list_all P w \<Longrightarrow> dropWhile P (w @ r) = dropWhile P r"
  by (induction w) simp_all

lemma js_trim_lead: "list_all is_space w \<Longrightarrow> js_trim (w @ r) = js_trim r"
  by (simp add: js_trim_def dropWhile_all)

lemma js_trim_tail:
  assumes "s \<noteq> []" "\<not> is_space (hd s)" "\<not> is_space (last s)" "list_all is_space w"
  shows "js_trim (s @ w) = s"
proof -
  have 1: "dropWhile is_space (s @ w) = s @ w"
    using assms(1,2) by (cases s) simp_all
  have "list_all is_space (rev w)" using assms(4) by (simp add: list_all_iff)
  then have 2: "dropWhile is_space (rev w @ rev s) = dropWhile is_space (rev s)"
    by (rule dropWhile_all)
  have "rev s \<noteq> []" "\<not> is_space (hd (rev s))" using assms(1,3) by (simp_all add: hd_rev)
  then have 3: "dropWhile is_space (rev s) = rev s" by (cases "rev s") simp_all
  show ?thesis by (simp add: js_trim_def 1 2 3)
qed

lemma all_dropWhile: "(\<forall>x\<in>set (dropWhile P s). P x) \<longleftrightarrow> (\<forall>x\<in>set s. P x)"
  by (induction s) auto

lemma js_trim_nonempty_iff: "js_trim s \<noteq> [] \<longleftrightarrow> \<not> list_all is_space s"
  by (simp add: js_trim_def list_all_iff dropWhile_eq_Nil_conv all_dropWhile)

lemma list_all2_Cons1E:
  "list_all2 P (x # xs) ys \<Longrightarrow> (\<And>y ys'. ys = y # ys' \<Longrightarrow> P x y \<Longrightarrow> list_all2 P xs ys' \<Longrightarrow> R) \<Longrightarrow> R"
  by (auto simp: list_all2_Cons1)

lemma single: "length p = 1 \<Longrightarrow> list_all P p \<Longrightarrow> \<exists>x. p = [x] \<and> P x"
  by (cases p) auto

lemma seg_ok_One: "seg_ok ((\<lambda>c. c = x), One) seg \<Longrightarrow> seg = [x]"
  using single[of seg "\<lambda>c. c = x"] by (auto simp: seg_ok_def)

lemma numbered_match:
  assumes "run_items True numbered_pattern line = Some m"
  shows "\<exists>d w r. m = [d, [46], w, r] \<and> line = d @ 46 # w @ r \<and> d \<noteq> [] \<and> list_all is_digit d \<and>
           list_all is_space w \<and> r \<noteq> [] \<and> list_all is_dot r"
proof -
  from run_items_sound[OF assms] have ok: "list_all2 seg_ok numbered_pattern m"
    and cat: "line = concat m" by auto
  from ok obtain d p w r where m: "m = [d, p, w, r]"
    and s: "seg_ok (is_digit, Plus) d" "seg_ok ((\<lambda>c. c = 46), One) p"
           "seg_ok (is_space, Star) w" "seg_ok (is_dot, Plus) r"
    by (auto simp: numbered_pattern_def list_all2_Cons1)
  from s(2) have "length p = 1" "list_all (\<lambda>c. c = 46) p" by (simp_all add: seg_ok_def)
  from single[OF this] have p: "p = [46]" by auto
  have "d \<noteq> []" "list_all is_digit d" "list_all is_space w" "r \<noteq> []" "list_all is_dot r"
    using s by (auto simp: seg_ok_def)
  moreover have "line = d @ 46 # w @ r" using cat by (simp add: m p)
  ultimately show ?thesis using m p by blast
qed

lemma numbered_iff:
  "numbered line \<longleftrightarrow>
     (\<exists>d w r. line = d @ 46 # w @ r \<and> d \<noteq> [] \<and> list_all is_digit d \<and> list_all is_space w \<and>
              r \<noteq> [] \<and> list_all is_dot r)"
proof
  assume "numbered line"
  then obtain m where "run_items True numbered_pattern line = Some m"
    by (auto simp: numbered_def)
  from numbered_match[OF this] show "\<exists>d w r. line = d @ 46 # w @ r \<and> d \<noteq> [] \<and> list_all is_digit d \<and>
      list_all is_space w \<and> r \<noteq> [] \<and> list_all is_dot r" by blast
next
  assume "\<exists>d w r. line = d @ 46 # w @ r \<and> d \<noteq> [] \<and> list_all is_digit d \<and> list_all is_space w \<and>
              r \<noteq> [] \<and> list_all is_dot r"
  then obtain d w r where l: "line = d @ 46 # w @ r" and
    h: "d \<noteq> []" "list_all is_digit d" "list_all is_space w" "r \<noteq> []" "list_all is_dot r" by blast
  have "list_all2 seg_ok numbered_pattern [d, [46], w, r]"
    using h by (simp add: numbered_pattern_def seg_ok_def Suc_le_eq)
  from run_items_complete[OF this, of True "[]"]
  have "run_items True numbered_pattern (concat [d, [46], w, r] @ []) \<noteq> None" by simp
  then show "numbered line" by (simp add: numbered_def l)
qed

lemma title_match:
  assumes "run_items True title_pattern r = Some cm"
  shows "\<exists>t w c. cm = [[42], [42], t, [58], [42], [42], w, c] \<and>
           r = 42 # 42 # t @ 58 # 42 # 42 # w @ c \<and> t \<noteq> [] \<and> 58 \<notin> set t \<and>
           list_all is_space w \<and> c \<noteq> [] \<and> list_all is_dot c"
proof -
  from run_items_sound[OF assms] have ok: "list_all2 seg_ok title_pattern cm"
    and cat: "r = concat cm" by auto
  from ok[unfolded title_pattern_def] obtain a b t e f g w c where cm: "cm = [a, b, t, e, f, g, w, c]"
    and s: "seg_ok ((\<lambda>c. c = 42), One) a" "seg_ok ((\<lambda>c. c = 42), One) b"
           "seg_ok ((\<lambda>c. c \<noteq> 58), Plus) t" "seg_ok ((\<lambda>c. c = 58), One) e"
           "seg_ok ((\<lambda>c. c = 42), One) f" "seg_ok ((\<lambda>c. c = 42), One) g"
           "seg_ok (is_space, Star) w" "seg_ok (is_dot, Plus) c"
    by (elim list_all2_Cons1E) simp
  have abefg: "a = [42]" "b = [42]" "e = [58]" "f = [42]" "g = [42]"
    using s(1,2,4,5,6) by (simp_all add: seg_ok_One)
  have "t \<noteq> []" "58 \<notin> set t" "list_all is_space w" "c \<noteq> []" "list_all is_dot c"
    using s by (auto simp: seg_ok_def list_all_iff)
  moreover have "r = 42 # 42 # t @ 58 # 42 # 42 # w @ c" using cat by (simp add: cm abefg)
  ultimately show ?thesis using cm abefg by blast
qed

lemma capture_numbered:
  "capture 0 3 [d, p, w, r] = d @ p @ w" "capture 3 4 [d, p, w, r] = r"
  by (simp_all add: capture_def numeral_3_eq_3)

lemma capture_title:
  "capture 2 3 [a, b, t, e, f, g, w, c] = t" "capture 7 8 [a, b, t, e, f, g, w, c] = c"
  by (simp_all add: capture_def eval_nat_numeral)

lemma takeWhile_stop: "list_all P xs \<Longrightarrow> \<not> P y \<Longrightarrow> takeWhile P (xs @ y # ys) = xs"
  by (induction xs) simp_all

lemma run_items_end: "run_items True [] s = (if s = [] then Some [] else None)"
  by (simp add: run_items.simps)

lemma takeWhile_length_less: "\<not> list_all p s \<Longrightarrow> length (takeWhile p s) < length s"
proof -
  assume a: "\<not> list_all p s"
  have "takeWhile p s \<noteq> s" using a by (simp add: takeWhile_eq_all_conv list_all_iff)
  moreover have "length (takeWhile p s) \<le> length s" by (rule length_takeWhile_le)
  moreover have "takeWhile p s = take (length (takeWhile p s)) s"
    by (metis append_eq_conv_conj takeWhile_dropWhile_id)
  ultimately show ?thesis by (metis le_neq_implies_less take_all order_refl)
qed

lemma run_dots:
  "run_items True [(is_dot, Plus)] s = (if s \<noteq> [] \<and> list_all is_dot s then Some [s] else None)"
proof -
  let ?f = "\<lambda>k. map_option ((#) (take k s)) (run_items True [] (drop k s))"
  have run: "run_items True [(is_dot, Plus)] s = greedy 1 (length (takeWhile is_dot s)) ?f"
    by (simp add: run_items.simps)
  show ?thesis
  proof (cases "s \<noteq> [] \<and> list_all is_dot s")
    case True
    then have tw: "takeWhile is_dot s = s" by (simp add: takeWhile_eq_all_conv list_all_iff)
    have "greedy 1 (length s) ?f = Some [s]"
      by (rule greedy_SomeI[where k = "length s"]) (use True in \<open>auto simp: run_items_end Suc_le_eq\<close>)
    then show ?thesis using True by (simp add: run tw)
  next
    case False
    have "?f k = None" if "1 \<le> k" "k \<le> length (takeWhile is_dot s)" for k
    proof (cases "s = []")
      case True
      then show ?thesis using that by simp
    next
      case False
      with \<open>\<not> (s \<noteq> [] \<and> list_all is_dot s)\<close> have "\<not> list_all is_dot s" by simp
      then have "length (takeWhile is_dot s) < length s" by (rule takeWhile_length_less)
      then have "drop k s \<noteq> []" using that by simp
      then show ?thesis by (simp add: run_items_end)
    qed
    then have "greedy 1 (length (takeWhile is_dot s)) ?f = None"
      by (subst greedy_None) blast
    then show ?thesis using False by (simp add: run)
  qed
qed

lemma run_tail:
  "run_items True [(is_space, Star), (is_dot, Plus)] rest =
     (case last_group rest of
        None \<Rightarrow> None
      | Some r \<Rightarrow> Some [take (length rest - length r) rest, r])"
proof -
  let ?w = "takeWhile is_space rest"
  let ?r = "dropWhile is_space rest"
  let ?g = "\<lambda>k. map_option ((#) (take k rest)) (run_items True [(is_dot, Plus)] (drop k rest))"
  have run: "run_items True [(is_space, Star), (is_dot, Plus)] rest = greedy 0 (length ?w) ?g"
    by (simp add: run_items.simps(2))
  have split: "rest = ?w @ ?r" by simp
  have dropn: "drop (length ?w) rest = ?r"
    by (metis append_eq_conv_conj takeWhile_dropWhile_id)
  have taken: "take (length ?w) rest = ?w"
    by (metis append_eq_conv_conj takeWhile_dropWhile_id)
  show ?thesis
  proof (cases "?r = []")
    case False
    show ?thesis
    proof (cases "list_all is_dot ?r")
      case True
      have "?g (length ?w) = Some [?w, ?r]"
        using False True by (simp add: run_dots dropn taken)
      then have "greedy 0 (length ?w) ?g = Some [?w, ?r]"
        by (intro greedy_SomeI[where k = "length ?w"]) auto
      moreover have "length rest = length ?w + length ?r"
        by (metis length_append takeWhile_dropWhile_id)
      then have "length rest - length ?r = length ?w" by simp
      ultimately show ?thesis using False True by (simp add: run last_group_def taken)
    next
      case nd: False
      have "?g k = None" if "k \<le> length ?w" for k
      proof -
        have "drop k rest = drop k ?w @ ?r"
          using that by (subst split) (simp del: takeWhile_dropWhile_id)
        then have "\<not> list_all is_dot (drop k rest)" using nd by simp
        then show ?thesis by (simp add: run_dots)
      qed
      then have "greedy 0 (length ?w) ?g = None" by (subst greedy_None) blast
      then show ?thesis using False nd by (simp add: run last_group_def)
    qed
  next
    case True
    then have w: "?w = rest" using split by simp
    show ?thesis
    proof (cases "rest \<noteq> [] \<and> is_dot (last rest)")
      case yes: True
      define k where "k = length rest - 1"
      have kl: "k < length rest" "Suc k = length rest" using yes by (simp_all add: k_def)
      have tk: "take k rest = butlast rest"
        by (simp add: butlast_conv_take k_def)
      have "rest = butlast rest @ [last rest]" using yes by simp
      then have "drop (length (butlast rest)) rest = [last rest]"
        by (metis append_eq_conv_conj)
      then have dk: "drop k rest = [last rest]" by (simp add: k_def)
      have "?g k = Some [butlast rest, [last rest]]"
        using yes by (simp add: run_dots dk tk)
      moreover have "?g j = None" if "k < j" "j \<le> length rest" for j
      proof -
        have "drop j rest = []" using that kl by simp
        then show ?thesis by (simp add: run_dots)
      qed
      ultimately have "greedy 0 (length rest) ?g = Some [butlast rest, [last rest]]"
        using kl by (intro greedy_SomeI[where k = k]) auto
      then show ?thesis using True yes by (simp add: run w last_group_def butlast_conv_take)
    next
      case no: False
      have "?g k = None" for k
      proof (cases "drop k rest = []")
        case True
        then show ?thesis by (simp add: run_dots)
      next
        case False
        then have "rest \<noteq> []" by auto
        with no have "\<not> is_dot (last rest)" by simp
        moreover have "last (drop k rest) = last rest" using False by (simp add: last_drop)
        ultimately have "\<not> list_all is_dot (drop k rest)"
          using False by (metis last_in_set list_all_iff)
        then show ?thesis by (simp add: run_dots)
      qed
      then have "greedy 0 (length ?w) ?g = None" by (subst greedy_None) blast
      then show ?thesis using True no by (simp add: run last_group_def)
    qed
  qed
qed

lemma run_items_Plus_exact:
  assumes "\<And>k. k < length (takeWhile p s) \<Longrightarrow> run_items eol items (drop k s) = None"
  shows "run_items eol ((p, Plus) # items) s =
     (if takeWhile p s = [] then None
      else map_option ((#) (takeWhile p s)) (run_items eol items (dropWhile p s)))"
proof -
  let ?n = "length (takeWhile p s)"
  let ?f = "\<lambda>k. map_option ((#) (take k s)) (run_items eol items (drop k s))"
  have run: "run_items eol ((p, Plus) # items) s = greedy 1 ?n ?f"
    by (simp add: run_items.simps(2))
  have dropn: "drop ?n s = dropWhile p s" and taken: "take ?n s = takeWhile p s"
    by (metis append_eq_conv_conj takeWhile_dropWhile_id)+
  have below: "?f k = None" if "k < ?n" for k
    using assms[OF that] by simp
  show ?thesis
  proof (cases "run_items eol items (dropWhile p s)")
    case None
    have "?f k = None" if "k \<le> ?n" for k
      using that below[of k] None by (cases "k = ?n") (simp_all add: dropn)
    then have "greedy 1 ?n ?f = None" by (subst greedy_None) blast
    then show ?thesis using None by (simp add: run)
  next
    case (Some segs)
    show ?thesis
    proof (cases "takeWhile p s = []")
      case True
      then have "greedy 1 ?n ?f = None" by (subst greedy_None) simp
      then show ?thesis using True by (simp add: run)
    next
      case False
      have "?f ?n = Some (takeWhile p s # segs)" by (simp add: dropn taken Some)
      then have "greedy 1 ?n ?f = Some (takeWhile p s # segs)"
        using False by (intro greedy_SomeI[where k = ?n]) (auto simp: Suc_le_eq)
      then show ?thesis using False Some by (simp add: run)
    qed
  qed
qed

lemma run_items_One_strip:
  "run_items eol (((\<lambda>c. c = x), One) # items) s =
     (case strip_prefix [x] s of
        None \<Rightarrow> None
      | Some s' \<Rightarrow> map_option ((#) [x]) (run_items eol items s'))"
  by (cases s) (simp_all add: run_items_One strip_prefix_def)

lemma drop_in_takeWhile:
  assumes "k < length (takeWhile p s)"
  shows "\<exists>c cs. drop k s = c # cs \<and> p c"
proof -
  have s: "s = takeWhile p s @ dropWhile p s" by simp
  have "drop k s = drop k (takeWhile p s) @ dropWhile p s"
    using assms by (subst s) (simp del: takeWhile_dropWhile_id)
  moreover obtain c cs where c: "drop k (takeWhile p s) = c # cs"
    using assms by (cases "drop k (takeWhile p s)") auto
  moreover have "c \<in> set (takeWhile p s)"
    using c by (metis in_set_dropD list.set_intros(1))
  then have "p c" by (rule set_takeWhileD[THEN conjunct2])
  ultimately show ?thesis by simp
qed

lemma run_items_Plus_One:
  assumes "\<not> p x"
  shows "run_items eol ((p, Plus) # ((\<lambda>c. c = x), One) # items) s =
     (if takeWhile p s = [] then None
      else (case strip_prefix [x] (dropWhile p s) of
              None \<Rightarrow> None
            | Some s' \<Rightarrow> map_option (\<lambda>segs. takeWhile p s # [x] # segs) (run_items eol items s')))"
proof -
  have "run_items eol (((\<lambda>c. c = x), One) # items) (drop k s) = None"
    if "k < length (takeWhile p s)" for k
  proof -
    from drop_in_takeWhile[OF that] obtain c cs where "drop k s = c # cs" "p c" by blast
    then show ?thesis using assms by (auto simp: run_items_One)
  qed
  then show ?thesis
    by (subst run_items_Plus_exact) (auto simp: run_items_One_strip option.map_comp comp_def split: option.splits)
qed

lemma numbered_exact:
  "run_items True numbered_pattern line =
     map_option (\<lambda>(d, r). [d, [46], take (length line - Suc (length d) - length r)
                                       (drop (Suc (length d)) line), r])
       (numbered_parts line)"
proof -
  let ?d = "takeWhile is_digit line"
  have dw: "dropWhile is_digit line = drop (length ?d) line"
    by (metis append_eq_conv_conj takeWhile_dropWhile_id)
  have sp: "strip_prefix [46] (drop (length ?d) line) = Some rest \<Longrightarrow>
            rest = drop (Suc (length ?d)) line \<and> length rest = length line - Suc (length ?d)" for rest
    by (auto simp: strip_prefix_def split: if_splits)
  show ?thesis
    unfolding numbered_pattern_def
    by (subst run_items_Plus_One)
       (auto simp: stop_not_digit numbered_parts_def Let_def dw run_tail option.map_comp comp_def
          dest: sp split: option.splits)
qed

lemma strip_prefix_Cons:
  "strip_prefix (x # p) s =
     (case strip_prefix [x] s of None \<Rightarrow> None | Some s' \<Rightarrow> strip_prefix p s')"
  by (cases s) (auto simp: strip_prefix_def)

lemma strip_prefix_drop: "strip_prefix p s = Some s' \<Longrightarrow> s' = drop (length p) s"
  by (auto simp: strip_prefix_def split: if_splits)

lemma title_exact:
  "map_option (\<lambda>cm. (capture 2 3 cm, capture 7 8 cm)) (run_items True title_pattern r)
     = title_parts r"
proof (cases "strip_prefix [42] r")
  case None
  then show ?thesis
    by (simp add: title_pattern_def run_items_One_strip title_parts_def strip_prefix_Cons[of 42 "[42]"])
next
  case s1: (Some r1)
  show ?thesis
  proof (cases "strip_prefix [42] r1")
    case None
    then show ?thesis using s1
      by (simp add: title_pattern_def run_items_One_strip title_parts_def strip_prefix_Cons[of 42 "[42]"])
  next
    case s2: (Some r2)
    let ?t = "takeWhile (\<lambda>c. c \<noteq> 58) r2"
    have sp: "strip_prefix [42, 42] r = Some r2"
      using s1 s2 by (simp add: strip_prefix_Cons[of 42 "[42]"])
    have dw: "dropWhile (\<lambda>c. c \<noteq> 58) r2 = drop (length ?t) r2"
      by (metis append_eq_conv_conj takeWhile_dropWhile_id)
    have head: "run_items True title_pattern r =
        map_option (\<lambda>segs. [42] # [42] # segs)
          (run_items True [((\<lambda>c. c \<noteq> 58), Plus), ((\<lambda>c. c = 58), One), ((\<lambda>c. c = 42), One),
             ((\<lambda>c. c = 42), One), (is_space, Star), (is_dot, Plus)] r2)"
      using s1 s2 by (simp add: title_pattern_def run_items_One_strip option.map_comp comp_def)
    have mid: "run_items True [((\<lambda>c. c \<noteq> 58), Plus), ((\<lambda>c. c = 58), One), ((\<lambda>c. c = 42), One),
             ((\<lambda>c. c = 42), One), (is_space, Star), (is_dot, Plus)] r2 =
        (if ?t = [] then None
         else (case strip_prefix [58, 42, 42] (drop (length ?t) r2) of
                 None \<Rightarrow> None
               | Some r3 \<Rightarrow>
                   map_option (\<lambda>segs. ?t # [58] # [42] # [42] # segs)
                     (run_items True [(is_space, Star), (is_dot, Plus)] r3)))"
      by (subst run_items_Plus_One)
         (auto simp: dw run_items_One_strip strip_prefix_Cons[of 58 "[42, 42]"]
            strip_prefix_Cons[of 42 "[42]"] option.map_comp comp_def split: option.splits)
    show ?thesis
      unfolding head mid
      by (auto simp: title_parts_def sp Let_def run_tail capture_title
          option.map_comp comp_def split: option.splits)
  qed
qed

lemma numbered_parts_digits:
  "numbered_parts line = Some (d, r) \<Longrightarrow> d \<noteq> [] \<and> list_all is_digit d"
  by (auto simp: numbered_parts_def Let_def list_all_iff split: if_splits option.splits
      dest: set_takeWhileD)

lemma numbered_captures:
  assumes "run_items True numbered_pattern line = Some m"
  shows "\<exists>d r. numbered_parts line = Some (d, r) \<and> js_trim (capture 0 3 m) = d @ [46] \<and>
               capture 3 4 m = r"
proof -
  from numbered_match[OF assms] obtain d w r where
    ms: "m = [d, [46], w, r]" and
    h: "d \<noteq> []" "list_all is_digit d" "list_all is_space w"
    by blast
  from assms obtain d' r' where np: "numbered_parts line = Some (d', r')"
    and m': "m = [d', [46], take (length line - Suc (length d') - length r')
                              (drop (Suc (length d')) line), r']"
    by (auto simp: numbered_exact)
  have eq: "d' = d" "r' = r" using ms m' by simp_all
  have "\<not> is_space (hd (d @ [46]))" using h(1,2) by (cases d) (simp_all add: digit_not_space)
  moreover have "\<not> is_space (last (d @ [46]))" by (simp add: stop_not_space)
  ultimately have "js_trim ((d @ [46]) @ w) = d @ [46]"
    using h(3) by (intro js_trim_tail) simp_all
  then have "js_trim (capture 0 3 m) = d @ [46]" by (simp add: ms capture_numbered)
  moreover have "capture 3 4 m = r" by (simp add: ms capture_numbered)
  ultimately show ?thesis using np eq by simp
qed

lemma parse_line_eq: "parse_line line = item_of_line line"
proof (cases "run_items True numbered_pattern line")
  case None
  then have "numbered_parts line = None" by (simp add: numbered_exact)
  then show ?thesis using None by (simp add: parse_line_def item_of_line_def)
next
  case (Some m)
  from numbered_captures[OF Some] obtain d r where
    np: "numbered_parts line = Some (d, r)" and
    n: "js_trim (capture 0 3 m) = d @ [46]" and c: "capture 3 4 m = r"
    by blast
  show ?thesis
  proof (cases "run_items True title_pattern r")
    case None
    then have "title_parts r = None" using title_exact[of r] by simp
    then show ?thesis using Some None by (simp add: parse_line_def item_of_line_def np n c)
  next
    case cm: (Some cm)
    then have "title_parts r = Some (capture 2 3 cm, capture 7 8 cm)"
      using title_exact[of r] by simp
    then show ?thesis using Some cm by (simp add: parse_line_def item_of_line_def np n c)
  qed
qed

lemma non_blank_lines_trim: "list_all (\<lambda>line. js_trim line \<noteq> []) (non_blank_lines t)"
  by (simp add: non_blank_lines_def list_all_iff)

text \<open>
  Claim C9, amended. \<^verbatim>\<open>parseListToStructured\<close> returns the empty list for \<^verbatim>\<open>null\<close> and
  for the empty string, and otherwise exactly one item per non-blank line, in order: the
  item described above. A line matches the numbered pattern exactly when it is digits, a
  full stop, white space and a rest that is not empty and has no line terminator; its
  item has the digits and the full stop as number and, as content, the trimmed text
  after them, or the title and the trimmed text after the title when that text starts
  with a title; the content is empty when only white space follows. Any other non-blank
  line yields an item with only the trimmed line, which is not empty, as content.
\<close>

theorem parseListToStructured_items:
  "parseListToStructured None = [] \<and> parseListToStructured (Some []) = [] \<and>
   parseListToStructured (Some t) = map item_of_line (non_blank_lines t) \<and>
   list_all (\<lambda>line. js_trim line \<noteq> []) (non_blank_lines t) \<and>
   (\<forall>line. numbered line = (numbered_parts line \<noteq> None)) \<and>
   (\<forall>line. numbered line =
      (\<exists>d w r. line = d @ 46 # w @ r \<and> d \<noteq> [] \<and> list_all is_digit d \<and> list_all is_space w \<and>
               r \<noteq> [] \<and> list_all is_dot r))"
proof -
  have "non_blank_lines [] = []"
    by (simp add: non_blank_lines_def js_trim_def)
  then have "parseListToStructured (Some t) = map item_of_line (non_blank_lines t)"
    by (cases "t = []") (simp_all add: parseListToStructured_def parse_line_eq[abs_def])
  moreover have "numbered line = (numbered_parts line \<noteq> None)" for line
    by (simp add: numbered_def numbered_exact)
  ultimately show ?thesis
    using numbered_iff non_blank_lines_trim by (simp add: parseListToStructured_def)
qed

text \<open>
  Claim C9, as stated: a line matching the numbered pattern yields an item whose
  content is not empty. The text \<^verbatim>\<open>1. \<close> (digit, full stop, space) matches, with the
  space as its second group, and its item has the empty content.
\<close>

theorem numbered_item_empty_content_counterexample:
  "parseListToStructured (Some (js ''1. ''))
     = [\<lparr>item_number = Some (js ''1.''), item_title = None, item_content = []\<rparr>] \<and>
   numbered (js ''1. '')"
  by (simp add: parseListToStructured_def non_blank_lines_def parse_line_def numbered_def js_def
      numbered_pattern_def title_pattern_def run_items.simps greedy.simps capture_def js_trim_def
      is_space_def is_white_space_def is_line_terminator_def is_digit_def is_dot_def
      numeral_3_eq_3)

theorem parseListToStructured_items_witness:
  "parseListToStructured (Some (js ''Notes'' @ [10, 10] @ js ''12. **T:** abc''))
     = [\<lparr>item_number = None, item_title = None, item_content = js ''Notes''\<rparr>,
        \<lparr>item_number = Some (js ''12.''), item_title = Some (js ''T''), item_content = js ''abc''\<rparr>]"
  using parseListToStructured_items[of "js ''Notes'' @ [10, 10] @ js ''12. **T:** abc''"]
  by (simp add: non_blank_lines_def item_of_line_def numbered_parts_def title_parts_def
      last_group_def strip_prefix_def js_def js_trim_def is_space_def is_white_space_def
      is_line_terminator_def is_digit_def is_dot_def)


section \<open>Properties of the profile card\<close>

















lemma binade_from_eq:
  "2 powi e \<le> r \<Longrightarrow> r < 2 powi (e + 1) \<Longrightarrow> - 1022 \<le> e \<Longrightarrow> e \<le> int k - 1022 \<Longrightarrow>
   binade_from k r = e"
proof (induction k)
  case 0
  then show ?case by simp
next
  case (Suc k)
  show ?case
  proof (cases "e = int (Suc k) - 1022")
    case True
    then show ?thesis using Suc.prems by simp
  next
    case False
    with Suc.prems have le: "e \<le> int k - 1022" by simp
    have "(2::rat) powi (e + 1) \<le> 2 powi (int (Suc k) - 1022)"
      using le by (intro power_int_increasing) simp_all
    with Suc.prems have "\<not> 2 powi (int (Suc k) - 1022) \<le> r" by simp
    then show ?thesis using Suc.IH[OF Suc.prems(1,2,3) le] by simp
  qed
qed

lemma binade_eq:
  "2 powi e \<le> r \<Longrightarrow> r < 2 powi (e + 1) \<Longrightarrow> - 1022 \<le> e \<Longrightarrow> e \<le> 1023 \<Longrightarrow> binade r = e"
  unfolding binade_def by (rule binade_from_eq) simp_all





lemma bmi_negative_weight:
  "compute_bmi (\<lambda>s. NaN) [(''weight_lbs'', Num (Fin (- 1))), (''height_inches'', Num (Fin 2))]
     = Some (Fin (- (1758 / 10)))"
proof -
  let ?p = "[(''weight_lbs'', Num (Fin (- 1))), (''height_inches'', Num (Fin 2))]"
  have b1: "binade 703 = 9" by (rule binade_eq) simp_all
  have b2: "binade 4 = 2" by (rule binade_eq) simp_all
  have b3: "binade (703 / 4) = 7" by (rule binade_eq) simp_all
  have w: "js_mul (Fin (- 1)) (Fin 703) = Fin (- 703)"
    by (simp add: js_mul_def round_double_def b1 Let_def round_half_even_def)
  have h: "js_mul (Fin 2) (Fin 2) = Fin 4"
    by (simp add: js_mul_def round_double_def b2 Let_def round_half_even_def)
  have q: "js_div (Fin (- 703)) (Fin 4) = Fin (- (703 / 4))"
    by (simp add: js_div_def round_double_def b3 Let_def round_half_even_def)
  have t: "to_fixed1 (Fin (- (703 / 4))) = Fin (- (1758 / 10))"
    by (simp add: to_fixed1_def floor_eq_iff)
  have fw: "field ?p ''weight_lbs'' = Num (Fin (- 1))"
    and fh: "field ?p ''height_inches'' = Num (Fin 2)"
    by (simp_all add: field_def)
  have d: "bmi_divisor (\<lambda>s. NaN) ?p = Fin 4"
    by (simp only: bmi_divisor_def fh to_number_def js_value.case h)
  have g: "truthy (Num (Fin (- 1)))" "truthy (Num (Fin 2))" "js_positive (Fin 2)"
    by (simp_all add: truthy_def js_positive_def)
  show ?thesis
    using g
    by (simp only: compute_bmi_def fw fh d to_number_def js_value.case w q t simp_thms if_True)
qed




end
